theory Spec2Isabelle
  imports Complex_Main
begin

section \<open>Python strings\<close>

text \<open>
  A Python \<open>str\<close> is a sequence of Unicode code points. A code point is a natural number
  here, so that the whitespace and line-boundary tables of the interpreter can be written
  out in full; \<open>lit\<close> turns an ASCII literal of the source into such a sequence.
\<close>

type_synonym codepoint = nat
type_synonym str = "codepoint list"

definition lit :: "string \<Rightarrow> str" where
  "lit s = map of_char s"

text \<open>
  \<open>str.strip\<close>, \<open>str.rstrip\<close> and \<open>str.split\<close> without arguments remove the code points
  for which the interpreter's whitespace test holds: U+0009..U+000D, U+001C..U+0020,
  U+0085, U+00A0, U+1680, U+2000..U+200A, U+2028, U+2029, U+202F, U+205F, U+3000.
\<close>

definition is_space :: "codepoint \<Rightarrow> bool" where
  "is_space c \<longleftrightarrow>
     (0x09 \<le> c \<and> c \<le> 0x0D) \<or> (0x1C \<le> c \<and> c \<le> 0x20) \<or> c = 0x85 \<or> c = 0xA0 \<or>
     c = 0x1680 \<or> (0x2000 \<le> c \<and> c \<le> 0x200A) \<or> c = 0x2028 \<or> c = 0x2029 \<or>
     c = 0x202F \<or> c = 0x205F \<or> c = 0x3000"

text \<open>
  \<open>str.splitlines\<close> breaks a text at U+000A..U+000D, U+001C..U+001E, U+0085, U+2028
  and U+2029; a carriage return followed by a line feed is one boundary.
\<close>

definition is_linebreak :: "codepoint \<Rightarrow> bool" where
  "is_linebreak c \<longleftrightarrow>
     (0x0A \<le> c \<and> c \<le> 0x0D) \<or> (0x1C \<le> c \<and> c \<le> 0x1E) \<or> c = 0x85 \<or>
     c = 0x2028 \<or> c = 0x2029"

definition lstrip :: "str \<Rightarrow> str" where
  "lstrip s = dropWhile is_space s"

definition rstrip :: "str \<Rightarrow> str" where
  "rstrip s = rev (dropWhile is_space (rev s))"

definition strip :: "str \<Rightarrow> str" where
  "strip s = rstrip (lstrip s)"

text \<open>
  \<open>splitlines\<close>: the lines of a text without their terminators; a terminator at the very
  end opens no further line, so \<open>"a\n"\<close> has the one line \<open>"a"\<close> and \<open>""\<close> has none.
\<close>

fun splitlines :: "str \<Rightarrow> str list" where
  "splitlines [] = []"
| "splitlines (c # cs) =
     (if c = 0x0D then
        (case cs of
           [] \<Rightarrow> [[]]
         | d # ds \<Rightarrow> if d = 0x0A then [] # splitlines ds else [] # splitlines cs)
      else if is_linebreak c then [] # splitlines cs
      else (case splitlines cs of
              [] \<Rightarrow> [[c]]
            | l # ls \<Rightarrow> (c # l) # ls))"

text \<open>\<open>split\<close> without arguments: the maximal runs of code points that are not whitespace.\<close>

fun split :: "str \<Rightarrow> str list" where
  "split [] = []"
| "split (c # cs) =
     (if is_space c then split cs
      else (case cs of
              [] \<Rightarrow> [[c]]
            | d # ds \<Rightarrow>
                if is_space d then [c] # split cs
                else (case split cs of
                        [] \<Rightarrow> [[c]]
                      | w # ws \<Rightarrow> (c # w) # ws)))"

fun join :: "str \<Rightarrow> str list \<Rightarrow> str" where
  "join sep [] = []"
| "join sep [x] = x"
| "join sep (x # y # ys) = x @ sep @ join sep (y # ys)"

definition startswith :: "str \<Rightarrow> str \<Rightarrow> bool" where
  "startswith s p \<longleftrightarrow> take (length p) s = p"

text \<open>
  The case mappings and the alphanumeric test of \<open>str.capitalize\<close>, \<open>str.lower\<close> and
  \<open>str.isalnum\<close> are tables of the interpreter's Unicode database. The program is modelled
  over any such tables; \<open>ascii\<close> is the instance that agrees with the interpreter on
  ASCII text and is used to run the model on concrete inputs.
\<close>

record unicode =
  isalnum :: "codepoint \<Rightarrow> bool"
  lower :: "str \<Rightarrow> str"
  capitalize :: "str \<Rightarrow> str"

definition ascii_upper_cp :: "codepoint \<Rightarrow> codepoint" where
  "ascii_upper_cp c = (if 97 \<le> c \<and> c \<le> 122 then c - 32 else c)"

definition ascii_lower_cp :: "codepoint \<Rightarrow> codepoint" where
  "ascii_lower_cp c = (if 65 \<le> c \<and> c \<le> 90 then c + 32 else c)"

definition ascii_isalnum :: "codepoint \<Rightarrow> bool" where
  "ascii_isalnum c \<longleftrightarrow> (48 \<le> c \<and> c \<le> 57) \<or> (65 \<le> c \<and> c \<le> 90) \<or> (97 \<le> c \<and> c \<le> 122)"

fun ascii_capitalize :: "str \<Rightarrow> str" where
  "ascii_capitalize [] = []"
| "ascii_capitalize (c # cs) = ascii_upper_cp c # map ascii_lower_cp cs"

definition ascii :: unicode where
  "ascii = \<lparr>isalnum = ascii_isalnum, lower = map ascii_lower_cp, capitalize = ascii_capitalize\<rparr>"


section \<open>generate_posts.py\<close>

subsection \<open>Module initialisation (lines 22-30)\<close>

text \<open>
  \<open>load_dotenv()\<close> adds the entries of the \<open>.env\<close> file to the process environment without
  replacing a variable that is already set. The module then reads \<open>GEMINI_API_KEY\<close> and
  calls \<open>sys.exit(1)\<close> when the value is missing or empty.
\<close>

type_synonym environ = "str \<rightharpoonup> str"

definition load_dotenv :: "environ \<Rightarrow> environ \<Rightarrow> environ" where
  "load_dotenv dotenv env = dotenv ++ env"

datatype 'a import_result = SystemExit int | Imported 'a

record generate_posts_module =
  GEMINI_API_KEY :: str
  SERP_API_KEY :: "str option"

definition import_generate_posts :: "environ \<Rightarrow> environ \<Rightarrow> generate_posts_module import_result" where
  "import_generate_posts dotenv env =
     (let env' = load_dotenv dotenv env in
      case env' (lit ''GEMINI_API_KEY'') of
        None \<Rightarrow> SystemExit 1
      | Some key \<Rightarrow>
          if key = [] then SystemExit 1
          else Imported \<lparr>GEMINI_API_KEY = key, SERP_API_KEY = env' (lit ''SERPAPI_API_KEY'')\<rparr>)"

subsection \<open>RateLimiter (lines 93-110)\<close>

text \<open>
  Clock readings, rates and token counts are real numbers, a model of the floats of
  \<open>time.time()\<close> that leaves rounding out.
\<close>

datatype error = ZeroDivisionError | ValueError

record rate_limiter =
  rate :: real
  capacity :: real
  tokens :: real
  last' :: real

definition RateLimiter :: "real \<Rightarrow> real \<Rightarrow> real \<Rightarrow> rate_limiter" where
  "RateLimiter rps burst now = \<lparr>rate = rps, capacity = burst, tokens = burst, last' = now\<rparr>"

text \<open>Lines 100-103: the refill at clock reading \<open>now\<close>.\<close>

definition refill :: "rate_limiter \<Rightarrow> real \<Rightarrow> rate_limiter" where
  "refill l now =
     (let elapsed = now - last' l in
      l\<lparr>tokens := min (capacity l) (tokens l + elapsed * rate l), last' := now\<rparr>)"

text \<open>
  \<open>acquire\<close> returns the limiter after the call and either the time slept (\<open>None\<close> when a
  token was there) or the exception raised: the division raises for a rate of zero and
  \<open>time.sleep\<close> raises for a negative length, in both cases after the refill was stored.
\<close>

definition acquire :: "rate_limiter \<Rightarrow> real \<Rightarrow> rate_limiter \<times> (error + real option)" where
  "acquire l now =
     (let l1 = refill l now in
      if tokens l1 < 1 then
        (if rate l1 = 0 then (l1, Inl ZeroDivisionError)
         else if (1 - tokens l1) / rate l1 < 0 then (l1, Inl ValueError)
         else (l1\<lparr>tokens := 0\<rparr>, Inr (Some ((1 - tokens l1) / rate l1))))
      else (l1\<lparr>tokens := tokens l1 - 1\<rparr>, Inr None))"

text \<open>Line 110: the limiter of the module, created at clock reading \<open>now\<close>.\<close>

definition limiter :: "real \<Rightarrow> rate_limiter" where
  "limiter now = RateLimiter 1 3 now"

subsection \<open>deduplicate_text (lines 124-132)\<close>

fun dedup_loop :: "str list \<Rightarrow> str list \<Rightarrow> str set \<Rightarrow> str list" where
  "dedup_loop [] lines seen = lines"
| "dedup_loop (line # rest) lines seen =
     (let clean = strip line in
      if clean \<noteq> [] \<and> clean \<notin> seen
      then dedup_loop rest (lines @ [clean]) (insert clean seen)
      else dedup_loop rest lines seen)"

definition deduplicate_text :: "str \<Rightarrow> str" where
  "deduplicate_text text = strip (join [0x0A] (dedup_loop (splitlines text) [] {}))"

subsection \<open>_generate_with_retries (lines 158-169)\<close>

text \<open>
  The model endpoint is outside the program: \<open>call k\<close> is what \<open>generate_content\<close> does in
  attempt \<open>k\<close> (a response, one of the two overload exceptions, or any other exception
  with its message), and \<open>random k\<close> is the value \<open>random.random()\<close> yields in attempt \<open>k\<close>.
  The function returns what it did, in order, next to its result.
\<close>

datatype 'r outcome = Response 'r | Overloaded | Failed str

datatype event = Acquire | Attempt nat | Backoff real | LogError str

fun retry_loop :: "(nat \<Rightarrow> 'r outcome) \<Rightarrow> (nat \<Rightarrow> real) \<Rightarrow> nat list \<Rightarrow> event list \<times> 'r option" where
  "retry_loop call random [] = ([], None)"
| "retry_loop call random (attempt # rest) =
     (case call attempt of
        Response r \<Rightarrow> ([Attempt attempt], Some r)
      | Overloaded \<Rightarrow>
          (let (evs, res) = retry_loop call random rest
           in (Attempt attempt # Backoff (2 ^ attempt + random attempt) # evs, res))
      | Failed msg \<Rightarrow> ([Attempt attempt, LogError msg], None))"

definition generate_with_retries ::
  "rate_limiter \<Rightarrow> real \<Rightarrow> (nat \<Rightarrow> 'r outcome) \<Rightarrow> (nat \<Rightarrow> real) \<Rightarrow> int
     \<Rightarrow> rate_limiter \<times> event list \<times> (error + 'r option)" where
  "generate_with_retries l now call random max_retries =
     (case acquire l now of
        (l', Inl e) \<Rightarrow> (l', [Acquire], Inl e)
      | (l', Inr waited) \<Rightarrow>
          (let (evs, res) = retry_loop call random [0..<nat max_retries]
           in (l', Acquire # evs, Inr res)))"

subsection \<open>apply_post_processing (lines 172-183)\<close>

definition apply_post_processing :: "unicode \<Rightarrow> str \<Rightarrow> str \<Rightarrow> str" where
  "apply_post_processing u post idea =
     (if post = [] then post
      else
        (let post1 = join [0x0A] (filter (\<lambda>line. \<not> startswith (strip line) (lit ''#'')) (splitlines post));
             keywords = take 3 (filter (\<lambda>w. length w > 3) (split idea));
             hashtags = join (lit '' '') (map (\<lambda>w. lit ''#'' @ capitalize u w) keywords);
             post2 = (if hashtags \<noteq> [] then post1 @ [0x0A, 0x0A] @ hashtags else post1);
             post3 = (if 0x3F \<notin> set post2 then post2 @ [0x0A, 0x0A] @ lit ''What do you think?'' else post2)
         in strip post3))"

text \<open>Lines 199-200 of \<open>generate_linkedin_post\<close>: the two steps applied to the extracted text.\<close>

definition normalize_post :: "unicode \<Rightarrow> str \<Rightarrow> str \<Rightarrow> str" where
  "normalize_post u text idea = apply_post_processing u (deduplicate_text text) idea"


section \<open>app.py\<close>

text \<open>
  JSON documents: request bodies, responses and the trained data kept in a cache file.
  An object is its list of members, in the order they were written.
\<close>

datatype json =
    JNull
  | JBool bool
  | JNum real
  | JStr str
  | JArr "json list"
  | JObj "(str \<times> json) list"

text \<open>
  An exception caught by a handler's \<open>except Exception\<close> matters there only through
  \<open>str(e)\<close>, its message.
\<close>

datatype exn = Exception str

fun message :: "exn \<Rightarrow> str" where
  "message (Exception m) = m"

text \<open>
  The cache directory: a file is present or not; a file has the time of its last write
  and, as its content, what \<open>json.load\<close> makes of its bytes (a document, or the decoding
  error raised).
\<close>

record cache_file =
  content :: "exn + json"
  mtime :: real

type_synonym filesystem = "str \<rightharpoonup> cache_file"

definition CACHE_DIR :: str where
  "CACHE_DIR = lit ''cache''"

definition CACHE_DURATION_HOURS :: real where
  "CACHE_DURATION_HOURS = 24"

text \<open>Lines 43-46; \<open>os.path.join\<close> with the separator of a POSIX system.\<close>

definition get_cache_path :: "unicode \<Rightarrow> str \<Rightarrow> str" where
  "get_cache_path u profile_name =
     (let safe_filename = rstrip (filter (\<lambda>c. isalnum u c \<or> c = 0x20 \<or> c = 0x5F) profile_name)
      in CACHE_DIR @ lit ''/'' @ lower u (map (\<lambda>c. if c = 0x20 then 0x5F else c) safe_filename) @ lit ''.json'')"

definition get_cache_age_hours :: "filesystem \<Rightarrow> real \<Rightarrow> str \<Rightarrow> real option" where
  "get_cache_age_hours fs now file_path =
     (case fs file_path of
        None \<Rightarrow> None
      | Some f \<Rightarrow> (let age_seconds = now - mtime f in Some (age_seconds / 3600)))"

definition is_cache_valid :: "filesystem \<Rightarrow> real \<Rightarrow> str \<Rightarrow> bool" where
  "is_cache_valid fs now file_path =
     (case get_cache_age_hours fs now file_path of
        None \<Rightarrow> False
      | Some age \<Rightarrow> age < CACHE_DURATION_HOURS)"

text \<open>
  The body of a request, as \<open>request.get_json()\<close> returns it: an object whose members,
  where present, have the types the handlers expect (\<open>None\<close> is an absent member, for
  which \<open>data.get\<close> yields its default).
\<close>

record request_data =
  profileUrl :: "str option"
  profileName :: "str option"
  criteria :: "str option"
  forceRefresh :: "bool option"

definition get :: "'a option \<Rightarrow> 'a \<Rightarrow> 'a" where
  "get member dflt = (case member of None \<Rightarrow> dflt | Some v \<Rightarrow> v)"

type_synonym response = "json \<times> nat"

definition json_of_age :: "real option \<Rightarrow> json" where
  "json_of_age age = (case age of None \<Rightarrow> JNull | Some a \<Rightarrow> JNum a)"

definition failure :: "str \<Rightarrow> nat \<Rightarrow> response" where
  "failure msg status = (JObj [(lit ''success'', JBool False), (lit ''error'', JStr msg)], status)"

text \<open>Lines 81-98; \<open>now\<close> is the clock reading inside \<open>get_cache_age_hours\<close>.\<close>

definition cache_status :: "unicode \<Rightarrow> filesystem \<Rightarrow> real \<Rightarrow> request_data \<Rightarrow> response" where
  "cache_status u fs now data =
     (let profile_name = strip (get (profileName data) []) in
      if profile_name = [] then failure (lit ''Missing profile name'') 400
      else
        (let cache_file = get_cache_path u profile_name;
             age_hours = get_cache_age_hours fs now cache_file
         in (JObj [(lit ''success'', JBool True),
                   (lit ''cached'', JBool (age_hours \<noteq> None)),
                   (lit ''cache_age_hours'', json_of_age age_hours)], 200)))"

text \<open>
  The collaborators \<open>generate\<close> calls in other modules, each returning its value or the
  exception it raises. \<open>train_model.train\<close> and \<open>generate_posts.create_post\<close> are called by
  \<open>generate\<close> and defined by no module of the repository; they are parameters like
  the others.
\<close>

record 'posts collaborators =
  scrape_profile_posts :: "str \<Rightarrow> exn + 'posts"
  build_index :: "'posts \<Rightarrow> exn + bool"
  train :: "'posts \<Rightarrow> exn + json"
  create_post :: "str \<Rightarrow> json \<Rightarrow> exn + str"

text \<open>
  The clock readings of one run of \<open>generate\<close>: at its start, in the validity check, when
  the cache file is written (its new modification time), in the age reported and at the
  end.
\<close>

record clock =
  t_start :: real
  t_check :: real
  t_write :: real
  t_meta :: real
  t_end :: real

text \<open>Lines 141-145: the branch taken when the cache is not used.\<close>

definition rebuild ::
  "'posts collaborators \<Rightarrow> clock \<Rightarrow> filesystem \<Rightarrow> str \<Rightarrow> str \<Rightarrow> filesystem \<times> (exn + json \<times> bool)" where
  "rebuild co clk fs cache_file profile_url =
     (case scrape_profile_posts co profile_url of
        Inl e \<Rightarrow> (fs, Inl e)
      | Inr posts \<Rightarrow>
          (case build_index co posts of
             Inl e \<Rightarrow> (fs, Inl e)
           | Inr built \<Rightarrow>
               (case train co posts of
                  Inl e \<Rightarrow> (fs, Inl e)
                | Inr trained_data \<Rightarrow>
                    (fs(cache_file \<mapsto> \<lparr>content = Inr trained_data, mtime = t_write clk\<rparr>),
                     Inr (trained_data, False)))))"

text \<open>
  Lines 132-145: the trained data and \<open>used_cache\<close>, or the exception raised, next to the
  cache directory as the step leaves it.
\<close>

definition load_or_rebuild ::
  "'posts collaborators \<Rightarrow> clock \<Rightarrow> filesystem \<Rightarrow> str \<Rightarrow> str \<Rightarrow> bool \<Rightarrow> filesystem \<times> (exn + json \<times> bool)" where
  "load_or_rebuild co clk fs cache_file profile_url force_refresh =
     (if \<not> force_refresh \<and> is_cache_valid fs (t_check clk) cache_file then
        (case fs cache_file of
           None \<Rightarrow> (fs, Inl (Exception (lit ''No such file or directory'')))
         | Some f \<Rightarrow>
             (case content f of
                Inl e \<Rightarrow> (fs, Inl e)
              | Inr trained_data \<Rightarrow> (fs, Inr (trained_data, True))))
      else rebuild co clk fs cache_file profile_url)"

text \<open>\<open>round(x, 2)\<close>: to the nearest hundredth, a tie to the even one.\<close>

definition round_half_even :: "real \<Rightarrow> int" where
  "round_half_even x =
     (let f = \<lfloor>x\<rfloor>; d = x - of_int f in
      if d < 1 / 2 then f else if 1 / 2 < d then f + 1 else if even f then f else f + 1)"

definition round2 :: "real \<Rightarrow> real" where
  "round2 x = of_int (round_half_even (x * 100)) / 100"

text \<open>Lines 149-154: the response of a successful run.\<close>

definition success :: "str \<Rightarrow> bool \<Rightarrow> real option \<Rightarrow> real \<Rightarrow> response" where
  "success post_text used_cache age_hours generation_time =
     (let meta = JObj [(lit ''used_cache'', JBool used_cache),
                       (lit ''cache_age_hours'', json_of_age age_hours),
                       (lit ''generation_time'', JNum generation_time)]
      in (JObj [(lit ''success'', JBool True), (lit ''post'', JStr post_text), (lit ''meta'', meta)], 200))"

text \<open>Lines 117-158.\<close>

definition generate ::
  "unicode \<Rightarrow> 'posts collaborators \<Rightarrow> clock \<Rightarrow> filesystem \<Rightarrow> request_data \<Rightarrow> filesystem \<times> response" where
  "generate u co clk fs data =
     (let profile_url = strip (get (profileUrl data) []);
          profile_name = strip (get (profileName data) []);
          criteria' = strip (get (criteria data) []);
          force_refresh = get (forceRefresh data) False
      in
      if \<not> (profile_url \<noteq> [] \<and> profile_name \<noteq> [] \<and> criteria' \<noteq> []) then
        (fs, failure (lit ''Missing required fields'') 400)
      else
        (let cache_file = get_cache_path u profile_name in
         case load_or_rebuild co clk fs cache_file profile_url force_refresh of
           (fs', Inl e) \<Rightarrow> (fs', failure (message e) 500)
         | (fs', Inr (trained_data, used_cache)) \<Rightarrow>
             (case create_post co criteria' trained_data of
                Inl e \<Rightarrow> (fs', failure (message e) 500)
              | Inr post_text \<Rightarrow>
                  (fs', success post_text used_cache
                          (get_cache_age_hours fs' (t_meta clk) cache_file)
                          (round2 (t_end clk - t_start clk))))))"

text \<open>
  Line 18 of app.py and line 2 of main.py: both import the generation module when they are
  loaded, and \<open>SystemExit\<close> passes through an import. The imports that stand before it
  (lines 5-17 of app.py, lines 7-19 of generate_posts.py) are taken to succeed. The command
  line of generate_posts.py (lines 204-216) runs after the module's top level.
\<close>

datatype process = Exited int | Serving | Printed str

definition import_app :: "environ \<Rightarrow> environ \<Rightarrow> generate_posts_module import_result" where
  "import_app dotenv env = import_generate_posts dotenv env"

definition main :: "environ \<Rightarrow> environ \<Rightarrow> process" where
  "main dotenv env =
     (case import_app dotenv env of
        SystemExit n \<Rightarrow> Exited n
      | Imported m \<Rightarrow> Serving)"

text \<open>\<open>run\<close> stands for lines 204-216, which need the loaded module.\<close>

definition cli :: "environ \<Rightarrow> environ \<Rightarrow> (generate_posts_module \<Rightarrow> process) \<Rightarrow> process" where
  "cli dotenv env run =
     (case import_generate_posts dotenv env of
        SystemExit n \<Rightarrow> Exited n
      | Imported m \<Rightarrow> run m)"


section \<open>Reading a run\<close>

text \<open>What a run of \<open>generate_with_retries\<close> did: its attempts, its sleeps, its acquisitions.\<close>

fun attempts :: "event list \<Rightarrow> nat list" where
  "attempts [] = []"
| "attempts (Attempt k # es) = k # attempts es"
| "attempts (e # es) = attempts es"

fun backoffs :: "event list \<Rightarrow> real list" where
  "backoffs [] = []"
| "backoffs (Backoff d # es) = d # backoffs es"
| "backoffs (e # es) = backoffs es"

fun acquisitions :: "event list \<Rightarrow> nat" where
  "acquisitions [] = 0"
| "acquisitions (Acquire # es) = Suc (acquisitions es)"
| "acquisitions (e # es) = acquisitions es"

fun member :: "json \<Rightarrow> str \<Rightarrow> json option" where
  "member (JObj kvs) k = map_of kvs k"
| "member j k = None"


text \<open>
  The parts of \<open>apply_post_processing\<close>, named for the proofs: the hashtag line of an
  idea (lines 177-178), and the text built from the lines kept and that hashtag line (lines
  176 and 179-183). A clean line is one \<open>deduplicate_text\<close> keeps as it is; the hashtag line
  is empty or a clean line that starts with \<open>#\<close>.
\<close>

definition hashtags_of :: "unicode \<Rightarrow> str \<Rightarrow> str" where
  "hashtags_of u idea =
     join (lit '' '') (map (\<lambda>w. lit ''#'' @ capitalize u w) (take 3 (filter (\<lambda>w. length w > 3) (split idea))))"

definition assembled :: "str list \<Rightarrow> str \<Rightarrow> str" where
  "assembled K H =
     (let post1 = join [0x0A] K;
          post2 = (if H \<noteq> [] then post1 @ [0x0A, 0x0A] @ H else post1);
          post3 = (if 0x3F \<notin> set post2 then post2 @ [0x0A, 0x0A] @ lit ''What do you think?'' else post2)
      in strip post3)"

definition clean :: "str \<Rightarrow> bool" where
  "clean l \<longleftrightarrow> l \<noteq> [] \<and> strip l = l \<and> (\<forall>c\<in>set l. \<not> is_linebreak c)"

definition tagline :: "str \<Rightarrow> bool" where
  "tagline H \<longleftrightarrow> H = [] \<or> (clean H \<and> hd H = 0x23)"

text \<open>
  The lines of the text \<open>assembled\<close> builds: the lines kept, then a blank line and the
  hashtag line if there is one, then a blank line and the closing question if no question
  mark came before; the final \<open>strip\<close> removes what would lead an assembled text with no
  line kept.
\<close>

definition layout :: "str list \<Rightarrow> str \<Rightarrow> str list" where
  "layout K H =
     (let blank_H = (if H \<noteq> [] then [[], H] else []);
          blank_W = (if 0x3F \<notin> set (join [0x0A] K) \<and> 0x3F \<notin> set H
                     then [[], lit ''What do you think?''] else [])
      in if K = [] then drop 1 (blank_H @ blank_W) else K @ blank_H @ blank_W)"


section \<open>The retrying caller\<close>

lemma retry_loop_overloaded:
  "\<forall>k. call k = Overloaded \<Longrightarrow>
     retry_loop call random ks = (concat (map (\<lambda>k. [Attempt k, Backoff (2 ^ k + random k)]) ks), None)"
  by (induction ks) auto

lemma attempts_pairs: "attempts (concat (map (\<lambda>k. [Attempt k, Backoff (f k)]) ks)) = ks"
  by (induction ks) auto

lemma backoffs_pairs: "backoffs (concat (map (\<lambda>k. [Attempt k, Backoff (f k)]) ks)) = map f ks"
  by (induction ks) auto

lemma acquisitions_retry_loop: "acquisitions (fst (retry_loop call random ks)) = 0"
  by (induction ks) (auto split: outcome.splits prod.splits)

lemma retry_loop_failed:
  "\<forall>j\<in>set pre. call j = Overloaded \<Longrightarrow> call k = Failed msg \<Longrightarrow>
     attempts (fst (retry_loop call random (pre @ k # post))) = pre @ [k] \<and>
     snd (retry_loop call random (pre @ k # post)) = None"
  by (induction pre) (auto split: prod.splits)

lemma upt_split: "k < n \<Longrightarrow> [0..<n] = [0..<k] @ k # [Suc k..<n]"
proof -
  assume kn: "k < n"
  have "[0..<n] = [0..<k + (n - k)]" using kn by simp
  also have "\<dots> = [0..<k] @ [k..<k + (n - k)]" by (rule upt_add_eq_append) simp
  also have "[k..<k + (n - k)] = k # [Suc k..<n]" using kn by (simp add: upt_conv_Cons)
  finally show ?thesis .
qed

lemma acquire_returns: "0 < rate l \<Longrightarrow> \<exists>w. snd (acquire l now) = Inr w"
  by (auto simp: acquire_def refill_def Let_def divide_less_0_iff)

lemma retry_loop_failed_events:
  "\<forall>j\<in>set pre. call j = Overloaded \<Longrightarrow> call k = Failed msg \<Longrightarrow>
     retry_loop call random (pre @ k # post) =
       (concat (map (\<lambda>j. [Attempt j, Backoff (2 ^ j + random j)]) pre) @ [Attempt k, LogError msg], None)"
  by (induction pre) (auto split: prod.splits)

lemma attempts_append: "attempts (xs @ ys) = attempts xs @ attempts ys"
  by (induction xs rule: attempts.induct) simp_all

lemma backoffs_append: "backoffs (xs @ ys) = backoffs xs @ backoffs ys"
  by (induction xs rule: backoffs.induct) simp_all

text \<open>
  C3. With a limiter of positive rate (the module's has rate 1) and a tier whose every
  attempt raises an overload exception, \<open>_generate_with_retries\<close> acquires, then makes the
  attempts \<open>0, ..., max_retries - 1\<close> and no other, sleeps \<open>2 ^ attempt + random.random()\<close>
  after each of them, and returns \<open>None\<close>. When attempt \<open>k\<close> raises any other exception
  after overloads only, the call does, in this order and nothing else: the acquisition, the
  attempts \<open>0, ..., k - 1\<close> each followed by its sleep, attempt \<open>k\<close>, and the report of the
  error; no sleep and no attempt follows attempt \<open>k\<close>, and the result is \<open>None\<close>.
\<close>

theorem retrying_caller_bounded:
  assumes "0 < rate l" and "0 \<le> max_retries"
  shows "((\<forall>k. call k = Overloaded) \<longrightarrow>
            snd (generate_with_retries l now call random max_retries) =
              (Acquire # concat (map (\<lambda>k. [Attempt k, Backoff (2 ^ k + random k)]) [0..<nat max_retries]),
               Inr None) \<and>
            int (length (attempts (fst (snd (generate_with_retries l now call random max_retries))))) = max_retries \<and>
            backoffs (fst (snd (generate_with_retries l now call random max_retries))) =
              map (\<lambda>k. 2 ^ k + random k) [0..<nat max_retries]) \<and>
         ((\<forall>j<k. call j = Overloaded) \<and> call k = Failed msg \<and> int k < max_retries \<longrightarrow>
            snd (generate_with_retries l now call random max_retries) =
              (Acquire # concat (map (\<lambda>j. [Attempt j, Backoff (2 ^ j + random j)]) [0..<k]) @
                 [Attempt k, LogError msg],
               Inr None) \<and>
            attempts (fst (snd (generate_with_retries l now call random max_retries))) = [0..<Suc k] \<and>
            backoffs (fst (snd (generate_with_retries l now call random max_retries))) =
              map (\<lambda>j. 2 ^ j + random j) [0..<k] \<and>
            snd (snd (generate_with_retries l now call random max_retries)) = Inr None)"
proof -
  obtain w where w: "snd (acquire l now) = Inr w"
    using acquire_returns [OF assms(1)] by blast
  then have g: "snd (generate_with_retries l now call random max_retries) =
      (Acquire # fst (retry_loop call random [0..<nat max_retries]),
       Inr (snd (retry_loop call random [0..<nat max_retries])))"
    by (cases "acquire l now") (simp add: generate_with_retries_def split: prod.splits)
  have a: "snd (generate_with_retries l now call random max_retries) =
              (Acquire # concat (map (\<lambda>k. [Attempt k, Backoff (2 ^ k + random k)]) [0..<nat max_retries]),
               Inr None) \<and>
            int (length (attempts (fst (snd (generate_with_retries l now call random max_retries))))) = max_retries \<and>
            backoffs (fst (snd (generate_with_retries l now call random max_retries))) =
              map (\<lambda>k. 2 ^ k + random k) [0..<nat max_retries]"
    if "\<forall>k. call k = Overloaded"
    using that assms(2) by (simp add: g retry_loop_overloaded attempts_pairs backoffs_pairs)
  have b: "snd (generate_with_retries l now call random max_retries) =
              (Acquire # concat (map (\<lambda>j. [Attempt j, Backoff (2 ^ j + random j)]) [0..<k]) @
                 [Attempt k, LogError msg],
               Inr None) \<and>
            attempts (fst (snd (generate_with_retries l now call random max_retries))) = [0..<Suc k] \<and>
            backoffs (fst (snd (generate_with_retries l now call random max_retries))) =
              map (\<lambda>j. 2 ^ j + random j) [0..<k] \<and>
            snd (snd (generate_with_retries l now call random max_retries)) = Inr None"
    if h: "(\<forall>j<k. call j = Overloaded) \<and> call k = Failed msg \<and> int k < max_retries"
  proof -
    have kn: "k < nat max_retries" using h by linarith
    have pre: "\<forall>j\<in>set [0..<k]. call j = Overloaded" using h by simp
    have ck: "call k = Failed msg" using h by simp
    have ev: "snd (generate_with_retries l now call random max_retries) =
              (Acquire # concat (map (\<lambda>j. [Attempt j, Backoff (2 ^ j + random j)]) [0..<k]) @
                 [Attempt k, LogError msg],
               Inr None)"
      using retry_loop_failed_events [OF pre ck, of random "[Suc k..<nat max_retries]"]
      by (simp add: g upt_split [OF kn])
    show ?thesis
      by (simp add: ev attempts_append backoffs_append attempts_pairs backoffs_pairs)
  qed
  from a b show ?thesis by blast
qed

text \<open>
  At the default of four retries, with the module's limiter: a tier that is always
  overloaded, and one that is overloaded once and then fails otherwise.
\<close>

theorem retrying_caller_bounded_witness:
  "snd (generate_with_retries (limiter 0) 0 (\<lambda>k. Overloaded :: unit outcome) (\<lambda>k. 1 / 2) 4) =
     ([Acquire, Attempt 0, Backoff (3 / 2), Attempt 1, Backoff (5 / 2),
       Attempt 2, Backoff (9 / 2), Attempt 3, Backoff (17 / 2)], Inr None) \<and>
   snd (generate_with_retries (limiter 0) 0
      (\<lambda>k. if k < 1 then Overloaded else Failed (lit ''bad request'') :: unit outcome) (\<lambda>k. 1 / 2) 4) =
     ([Acquire, Attempt 0, Backoff (3 / 2), Attempt 1, LogError (lit ''bad request'')], Inr None)"
proof -
  have r: "0 < rate (limiter 0)" by (simp add: limiter_def RateLimiter_def)
  have u: "[0..<4] = [0, Suc 0, 2, 3]" by (simp add: eval_nat_numeral)
  have u2: "[0..<Suc 1] = [0, 1]" by (simp add: upt_conv_Cons)
  show ?thesis
    using retrying_caller_bounded [OF r, of 4 "\<lambda>k. Overloaded :: unit outcome" 0 "\<lambda>k. 1 / 2" 1 "lit ''bad request''"]
          retrying_caller_bounded [OF r, of 4 "\<lambda>k. if k < 1 then Overloaded else Failed (lit ''bad request'') :: unit outcome" 0 "\<lambda>k. 1 / 2" 1 "lit ''bad request''"]
    by (simp add: u u2)
qed

text \<open>
  C4, as stated, fails: \<open>limiter.acquire()\<close> stands before the loop. A tier that is always
  overloaded makes four attempts on one acquisition.
\<close>

theorem acquire_per_attempt_counterexample:
  "length (attempts (fst (snd (generate_with_retries (limiter 0) 0 (\<lambda>k. Overloaded :: unit outcome) (\<lambda>k. 0) 4)))) = 4 \<and>
   acquisitions (fst (snd (generate_with_retries (limiter 0) 0 (\<lambda>k. Overloaded :: unit outcome) (\<lambda>k. 0) 4))) = 1"
  by (simp add: generate_with_retries_def acquire_def refill_def limiter_def RateLimiter_def upt_conv_Cons)

text \<open>
  C4, amended. Every call of \<open>_generate_with_retries\<close> acquires the limiter exactly once,
  before its first attempt and whatever the number of attempts it goes on to make: the
  acquisition is the first thing the call does, nothing after it is an acquisition, and the
  call leaves the limiter as that one \<open>acquire\<close> leaves it.
\<close>

theorem acquire_once_per_call:
  "fst (generate_with_retries l now call random max_retries) = fst (acquire l now) \<and>
   fst (snd (generate_with_retries l now call random max_retries)) =
     Acquire # (case snd (acquire l now) of
                  Inl e \<Rightarrow> []
                | Inr waited \<Rightarrow> fst (retry_loop call random [0..<nat max_retries])) \<and>
   hd (fst (snd (generate_with_retries l now call random max_retries))) = Acquire \<and>
   acquisitions (tl (fst (snd (generate_with_retries l now call random max_retries)))) = 0 \<and>
   acquisitions (fst (snd (generate_with_retries l now call random max_retries))) = 1"
proof -
  obtain l' r where a: "acquire l now = (l', r)" by (cases "acquire l now")
  show ?thesis
  proof (cases r)
    case (Inl e)
    with a show ?thesis by (simp add: generate_with_retries_def)
  next
    case (Inr w)
    with a show ?thesis
      by (simp add: generate_with_retries_def acquisitions_retry_loop split: prod.splits)
         (metis acquisitions_retry_loop fst_conv)
  qed
qed

theorem acquire_once_per_call_witness:
  "fst (generate_with_retries (limiter 0) 5
      (\<lambda>k. if k < 2 then Overloaded else Response ()) (\<lambda>k. 0) 4) =
     \<lparr>rate = 1, capacity = 3, tokens = 2, last' = 5\<rparr> \<and>
   fst (snd (generate_with_retries (limiter 0) 5
      (\<lambda>k. if k < 2 then Overloaded else Response ()) (\<lambda>k. 0) 4)) =
     [Acquire, Attempt 0, Backoff 1, Attempt 1, Backoff 2, Attempt 2]"
proof -
  have a: "acquire (limiter 0) 5 = (\<lparr>rate = 1, capacity = 3, tokens = 2, last' = 5\<rparr>, Inr None)"
    by (simp add: acquire_def refill_def limiter_def RateLimiter_def)
  have u: "[0..<4] = [0, Suc 0, 2, 3]" by (simp add: eval_nat_numeral)
  show ?thesis
    using acquire_once_per_call [of "limiter 0" 5 "\<lambda>k. if k < 2 then Overloaded else Response ()" "\<lambda>k. 0" 4]
    by (simp add: a u)
qed


section \<open>The rate limiter\<close>





section \<open>Loading without the key\<close>

text \<open>
  C10. When \<open>GEMINI_API_KEY\<close> is unset once \<open>load_dotenv()\<close> has run, loading
  generate_posts.py ends in \<open>sys.exit(1)\<close>; so does loading app.py, which imports it, and
  with it the launcher main.py and the command line of generate_posts.py: neither reaches
  the code that serves a request or generates a post.
\<close>

theorem exit_without_key:
  assumes "load_dotenv dotenv env (lit ''GEMINI_API_KEY'') = None"
  shows "import_generate_posts dotenv env = SystemExit 1 \<and>
         import_app dotenv env = SystemExit 1 \<and>
         main dotenv env = Exited 1 \<and>
         cli dotenv env run = Exited 1"
  using assms by (simp add: import_generate_posts_def main_def import_app_def cli_def)

theorem exit_without_key_witness:
  "load_dotenv Map.empty Map.empty (lit ''GEMINI_API_KEY'') = None \<and>
   import_generate_posts Map.empty Map.empty = SystemExit 1 \<and>
   main Map.empty Map.empty = Exited 1 \<and>
   cli Map.empty Map.empty (\<lambda>m. Printed (GEMINI_API_KEY m)) = Exited 1"
proof -
  have h: "load_dotenv Map.empty Map.empty (lit ''GEMINI_API_KEY'') = None"
    by (simp add: load_dotenv_def)
  from exit_without_key [OF h, of "\<lambda>m. Printed (GEMINI_API_KEY m)"] h show ?thesis by simp
qed


section \<open>Cache introspection\<close>

text \<open>
  C9. For a profile name that is not empty after trimming, \<open>cache_status\<close> answers
  \<open>cached\<close> = true exactly when the cache file of the normalized name exists, with the
  age of the file. Its age plays no part: a file of 24 hours or more is reported as
  cached, with that age, while \<open>is_cache_valid\<close> rejects it and \<open>generate\<close>, checking at
  the same time, takes the rebuilding branch.
\<close>

theorem cache_status_ignores_age:
  assumes "strip (get (profileName data) []) = name" and "name \<noteq> []"
  shows "cache_status u fs now data =
           (JObj [(lit ''success'', JBool True),
                  (lit ''cached'', JBool (fs (get_cache_path u name) \<noteq> None)),
                  (lit ''cache_age_hours'',
                     (case fs (get_cache_path u name) of
                        None \<Rightarrow> JNull
                      | Some f \<Rightarrow> JNum ((now - mtime f) / 3600)))], 200) \<and>
         (fs (get_cache_path u name) = Some f \<and> 24 \<le> (now - mtime f) / 3600 \<and> t_check clk = now \<longrightarrow>
            member (fst (cache_status u fs now data)) (lit ''cached'') = Some (JBool True) \<and>
            member (fst (cache_status u fs now data)) (lit ''cache_age_hours'') = Some (JNum ((now - mtime f) / 3600)) \<and>
            \<not> is_cache_valid fs now (get_cache_path u name) \<and>
            load_or_rebuild co clk fs (get_cache_path u name) url force =
              rebuild co clk fs (get_cache_path u name) url)"
proof -
  define p where "p = get_cache_path u name"
  have st: "cache_status u fs now data =
           (JObj [(lit ''success'', JBool True), (lit ''cached'', JBool (fs p \<noteq> None)),
                  (lit ''cache_age_hours'', (case fs p of None \<Rightarrow> JNull | Some f \<Rightarrow> JNum ((now - mtime f) / 3600)))], 200)"
  proof (cases "fs p")
    case None
    then have "get_cache_age_hours fs now p = None" by (simp add: get_cache_age_hours_def)
    with None assms show ?thesis
      unfolding cache_status_def Let_def by (simp add: json_of_age_def p_def [symmetric])
  next
    case (Some a)
    then have "get_cache_age_hours fs now p = Some ((now - mtime a) / 3600)"
      by (simp add: get_cache_age_hours_def)
    with Some assms show ?thesis
      unfolding cache_status_def Let_def by (simp add: json_of_age_def p_def [symmetric])
  qed
  have k: "lit ''cached'' \<noteq> lit ''success''" "lit ''cache_age_hours'' \<noteq> lit ''success''"
          "lit ''cache_age_hours'' \<noteq> lit ''cached''"
    by (simp_all add: lit_def)
  have old: "member (fst (cache_status u fs now data)) (lit ''cached'') = Some (JBool True) \<and>
            member (fst (cache_status u fs now data)) (lit ''cache_age_hours'') = Some (JNum ((now - mtime f) / 3600)) \<and>
            \<not> is_cache_valid fs now p \<and>
            load_or_rebuild co clk fs p url force = rebuild co clk fs p url"
    if "fs p = Some f \<and> 24 \<le> (now - mtime f) / 3600 \<and> t_check clk = now"
    using that k
    by (simp add: st is_cache_valid_def get_cache_age_hours_def load_or_rebuild_def CACHE_DURATION_HOURS_def)
  from st old show ?thesis unfolding p_def by blast
qed

theorem cache_status_ignores_age_witness:
  "cache_status ascii [lit ''cache/jane_doe.json'' \<mapsto> \<lparr>content = Inr JNull, mtime = 0\<rparr>] 90000
      \<lparr>profileUrl = None, profileName = Some (lit ''Jane Doe''), criteria = None, forceRefresh = None\<rparr> =
     (JObj [(lit ''success'', JBool True), (lit ''cached'', JBool True), (lit ''cache_age_hours'', JNum 25)], 200) \<and>
   \<not> is_cache_valid [lit ''cache/jane_doe.json'' \<mapsto> \<lparr>content = Inr JNull, mtime = 0\<rparr>] 90000 (lit ''cache/jane_doe.json'')"
proof -
  have n: "strip (get (profileName \<lparr>profileUrl = None, profileName = Some (lit ''Jane Doe''), criteria = None, forceRefresh = None\<rparr>) []) = lit ''Jane Doe''"
    by (simp add: get_def strip_def lstrip_def rstrip_def lit_def is_space_def)
  have p: "get_cache_path ascii (lit ''Jane Doe'') = lit ''cache/jane_doe.json''"
    by (simp add: get_cache_path_def CACHE_DIR_def ascii_def rstrip_def lit_def is_space_def
          ascii_isalnum_def ascii_lower_cp_def)
  have h: "lit ''Jane Doe'' \<noteq> []"
    by (simp add: lit_def)
  show ?thesis
    using cache_status_ignores_age [OF n h, where u = ascii
        and fs = "[lit ''cache/jane_doe.json'' \<mapsto> \<lparr>content = Inr JNull, mtime = 0\<rparr>]" and now = 90000
        and f = "\<lparr>content = Inr JNull, mtime = 0\<rparr>"
        and clk = "\<lparr>t_start = 90000, t_check = 90000, t_write = 90000, t_meta = 90000, t_end = 90000\<rparr>"
        and co = "\<lparr>scrape_profile_posts = \<lambda>url. Inr (), build_index = \<lambda>posts. Inr True,
                   train = \<lambda>posts. Inr JNull, create_post = \<lambda>c t. Inr c\<rparr>"
        and url = "[]" and force = False]
    by (simp add: p)
qed


section \<open>The cache gate of generate\<close>

lemma generate_steps:
  assumes "strip (get (profileUrl data) []) = url" and "strip (get (profileName data) []) = name"
    and "strip (get (criteria data) []) = crit" and "url \<noteq> []" and "name \<noteq> []" and "crit \<noteq> []"
  shows "generate u co clk fs data =
     (case load_or_rebuild co clk fs (get_cache_path u name) url (get (forceRefresh data) False) of
        (fs', Inl e) \<Rightarrow> (fs', failure (message e) 500)
      | (fs', Inr (trained_data, used_cache)) \<Rightarrow>
          (case create_post co crit trained_data of
             Inl e \<Rightarrow> (fs', failure (message e) 500)
           | Inr post_text \<Rightarrow>
               (fs', success post_text used_cache
                       (get_cache_age_hours fs' (t_meta clk) (get_cache_path u name))
                       (round2 (t_end clk - t_start clk)))))"
  using assms unfolding generate_def Let_def by (auto split: prod.splits sum.splits)

lemma is_cache_valid_iff:
  "is_cache_valid fs now p \<longleftrightarrow> (\<exists>f. fs p = Some f \<and> (now - mtime f) / 3600 < 24)"
  by (cases "fs p") (simp_all add: is_cache_valid_def get_cache_age_hours_def CACHE_DURATION_HOURS_def)

lemma rebuild_not_cached: "snd (rebuild co clk fs p url) = Inr (t, used) \<Longrightarrow> \<not> used"
  by (auto simp: rebuild_def split: sum.splits)

text \<open>A request for the profile \<open>Jane Doe\<close>, on which the theorems below are run.\<close>

lemma jane_path: "get_cache_path ascii (lit ''Jane Doe'') = lit ''cache/jane_doe.json''"
  by (simp add: get_cache_path_def CACHE_DIR_def ascii_def rstrip_def lit_def is_space_def
        ascii_isalnum_def ascii_lower_cp_def)

lemma jane_request:
  "strip (get (profileUrl \<lparr>profileUrl = Some (lit ''u''), profileName = Some (lit '' Jane Doe''),
      criteria = Some (lit ''c''), forceRefresh = fr\<rparr>) []) = lit ''u''"
  "strip (get (profileName \<lparr>profileUrl = Some (lit ''u''), profileName = Some (lit '' Jane Doe''),
      criteria = Some (lit ''c''), forceRefresh = fr\<rparr>) []) = lit ''Jane Doe''"
  "strip (get (criteria \<lparr>profileUrl = Some (lit ''u''), profileName = Some (lit '' Jane Doe''),
      criteria = Some (lit ''c''), forceRefresh = fr\<rparr>) []) = lit ''c''"
  "lit ''u'' \<noteq> []" "lit ''Jane Doe'' \<noteq> []" "lit ''c'' \<noteq> []"
  by (simp_all add: get_def strip_def lstrip_def rstrip_def lit_def is_space_def)

lemma round2_5: "round2 5 = 5"
  by (simp add: round2_def round_half_even_def)

text \<open>
  C2. \<open>generate\<close> uses the cache exactly when the cache file exists, \<open>forceRefresh\<close> is
  false and the age of the file is below 24 hours: it then takes what the file holds,
  unchanged, with \<open>used_cache\<close> true, and leaves the cache directory as it is. In every
  other case it takes the rebuilding branch, which never sets \<open>used_cache\<close>. A file
  written 23 h 59 min before the check is used; one written 24 h 1 min before is rebuilt.
\<close>

theorem cache_gate_ttl:
  "load_or_rebuild co clk fs cache_file url force =
     (case fs cache_file of
        None \<Rightarrow> rebuild co clk fs cache_file url
      | Some f \<Rightarrow>
          if \<not> force \<and> (t_check clk - mtime f) / 3600 < 24
          then (fs, case content f of Inl e \<Rightarrow> Inl e | Inr payload \<Rightarrow> Inr (payload, True))
          else rebuild co clk fs cache_file url) \<and>
   (\<forall>t used. snd (rebuild co clk fs cache_file url) = Inr (t, used) \<longrightarrow> \<not> used) \<and>
   (fs cache_file = Some f \<and> content f = Inr payload \<and> \<not> force \<and>
      t_check clk = mtime f + (23 * 3600 + 59 * 60) \<longrightarrow>
        load_or_rebuild co clk fs cache_file url force = (fs, Inr (payload, True))) \<and>
   (fs cache_file = Some f \<and> t_check clk = mtime f + (24 * 3600 + 1 * 60) \<longrightarrow>
        load_or_rebuild co clk fs cache_file url force = rebuild co clk fs cache_file url)"
proof -
  have a: "load_or_rebuild co clk fs cache_file url force =
     (case fs cache_file of
        None \<Rightarrow> rebuild co clk fs cache_file url
      | Some f \<Rightarrow>
          if \<not> force \<and> (t_check clk - mtime f) / 3600 < 24
          then (fs, case content f of Inl e \<Rightarrow> Inl e | Inr payload \<Rightarrow> Inr (payload, True))
          else rebuild co clk fs cache_file url)"
    by (cases "fs cache_file")
       (auto simp: load_or_rebuild_def is_cache_valid_iff split: sum.splits)
  have b: "\<forall>t used. snd (rebuild co clk fs cache_file url) = Inr (t, used) \<longrightarrow> \<not> used"
    using rebuild_not_cached by blast
  have c: "load_or_rebuild co clk fs cache_file url force = (fs, Inr (payload, True))"
    if "fs cache_file = Some f \<and> content f = Inr payload \<and> \<not> force \<and>
      t_check clk = mtime f + (23 * 3600 + 59 * 60)"
    using that unfolding a by simp
  have d: "load_or_rebuild co clk fs cache_file url force = rebuild co clk fs cache_file url"
    if "fs cache_file = Some f \<and> t_check clk = mtime f + (24 * 3600 + 1 * 60)"
    using that unfolding a by simp
  from a b c d show ?thesis by blast
qed

theorem cache_gate_ttl_witness:
  "load_or_rebuild
      \<lparr>scrape_profile_posts = \<lambda>url. Inr (), build_index = \<lambda>posts. Inr True,
        train = \<lambda>posts. Inr (JStr (lit ''new'')), create_post = \<lambda>c t. Inr c\<rparr>
      \<lparr>t_start = 87339, t_check = 87340, t_write = 87341, t_meta = 87342, t_end = 87344\<rparr>
      [lit ''cache/jane_doe.json'' \<mapsto> \<lparr>content = Inr (JStr (lit ''old'')), mtime = 1000\<rparr>]
      (lit ''cache/jane_doe.json'') (lit ''u'') False =
     ([lit ''cache/jane_doe.json'' \<mapsto> \<lparr>content = Inr (JStr (lit ''old'')), mtime = 1000\<rparr>],
      Inr (JStr (lit ''old''), True)) \<and>
   load_or_rebuild
      \<lparr>scrape_profile_posts = \<lambda>url. Inr (), build_index = \<lambda>posts. Inr True,
        train = \<lambda>posts. Inr (JStr (lit ''new'')), create_post = \<lambda>c t. Inr c\<rparr>
      \<lparr>t_start = 87459, t_check = 87460, t_write = 87461, t_meta = 87462, t_end = 87464\<rparr>
      [lit ''cache/jane_doe.json'' \<mapsto> \<lparr>content = Inr (JStr (lit ''old'')), mtime = 1000\<rparr>]
      (lit ''cache/jane_doe.json'') (lit ''u'') False =
     ([lit ''cache/jane_doe.json'' \<mapsto> \<lparr>content = Inr (JStr (lit ''new'')), mtime = 87461\<rparr>],
      Inr (JStr (lit ''new''), False))"
  using cache_gate_ttl [where fs = "[lit ''cache/jane_doe.json'' \<mapsto> \<lparr>content = Inr (JStr (lit ''old'')), mtime = 1000\<rparr>]"
      and cache_file = "lit ''cache/jane_doe.json''" and f = "\<lparr>content = Inr (JStr (lit ''old'')), mtime = 1000\<rparr>"
      and payload = "JStr (lit ''old'')" and force = False and url = "lit ''u''"
      and clk = "\<lparr>t_start = 87339, t_check = 87340, t_write = 87341, t_meta = 87342, t_end = 87344\<rparr>"
      and co = "\<lparr>scrape_profile_posts = \<lambda>url. Inr (), build_index = \<lambda>posts. Inr True,
        train = \<lambda>posts. Inr (JStr (lit ''new'')), create_post = \<lambda>c t. Inr c\<rparr>"]
    cache_gate_ttl [where fs = "[lit ''cache/jane_doe.json'' \<mapsto> \<lparr>content = Inr (JStr (lit ''old'')), mtime = 1000\<rparr>]"
      and cache_file = "lit ''cache/jane_doe.json''" and f = "\<lparr>content = Inr (JStr (lit ''old'')), mtime = 1000\<rparr>"
      and payload = "JStr (lit ''old'')" and force = False and url = "lit ''u''"
      and clk = "\<lparr>t_start = 87459, t_check = 87460, t_write = 87461, t_meta = 87462, t_end = 87464\<rparr>"
      and co = "\<lparr>scrape_profile_posts = \<lambda>url. Inr (), build_index = \<lambda>posts. Inr True,
        train = \<lambda>posts. Inr (JStr (lit ''new'')), create_post = \<lambda>c t. Inr c\<rparr>"]
  by (simp add: rebuild_def)

text \<open>
  C7. On a cache miss (a forced refresh, no file, or a file of 24 hours or more), when
  scraping, index building or training raises, \<open>generate\<close> leaves the whole cache
  directory as it found it, the stale file included, and answers with the failure response
  that carries the exception's message and status 500.
\<close>

theorem rebuild_failure_keeps_cache:
  assumes "strip (get (profileUrl data) []) = url" and "strip (get (profileName data) []) = name"
    and "strip (get (criteria data) []) = crit" and "url \<noteq> []" and "name \<noteq> []" and "crit \<noteq> []"
    and miss: "get (forceRefresh data) False \<or> \<not> is_cache_valid fs (t_check clk) (get_cache_path u name)"
    and fails: "scrape_profile_posts co url = Inl e \<or>
                (\<exists>posts. scrape_profile_posts co url = Inr posts \<and>
                   (build_index co posts = Inl e \<or>
                    (\<exists>built. build_index co posts = Inr built \<and> train co posts = Inl e)))"
  shows "generate u co clk fs data = (fs, failure (message e) 500)"
proof -
  have "load_or_rebuild co clk fs (get_cache_path u name) url (get (forceRefresh data) False) =
          rebuild co clk fs (get_cache_path u name) url"
    using miss by (auto simp: load_or_rebuild_def)
  moreover have "rebuild co clk fs (get_cache_path u name) url = (fs, Inl e)"
    using fails by (auto simp: rebuild_def)
  ultimately show ?thesis
    by (simp add: generate_steps [OF assms(1-6)])
qed

theorem rebuild_failure_keeps_cache_witness:
  "generate ascii
      \<lparr>scrape_profile_posts = \<lambda>url. Inr (), build_index = \<lambda>posts. Inr True,
        train = \<lambda>posts. Inl (Exception (lit ''no attribute train'')), create_post = \<lambda>c t. Inr c\<rparr>
      \<lparr>t_start = 90000, t_check = 90001, t_write = 90002, t_meta = 90003, t_end = 90005\<rparr>
      [lit ''cache/jane_doe.json'' \<mapsto> \<lparr>content = Inr (JStr (lit ''old'')), mtime = 1000\<rparr>]
      \<lparr>profileUrl = Some (lit ''u''), profileName = Some (lit '' Jane Doe''),
        criteria = Some (lit ''c''), forceRefresh = None\<rparr> =
     ([lit ''cache/jane_doe.json'' \<mapsto> \<lparr>content = Inr (JStr (lit ''old'')), mtime = 1000\<rparr>],
      failure (lit ''no attribute train'') 500)"
proof -
  have miss: "get (forceRefresh \<lparr>profileUrl = Some (lit ''u''), profileName = Some (lit '' Jane Doe''),
        criteria = Some (lit ''c''), forceRefresh = None\<rparr>) False \<or>
      \<not> is_cache_valid [lit ''cache/jane_doe.json'' \<mapsto> \<lparr>content = Inr (JStr (lit ''old'')), mtime = 1000\<rparr>]
          (t_check \<lparr>t_start = 90000, t_check = 90001, t_write = 90002, t_meta = 90003, t_end = 90005\<rparr>)
          (get_cache_path ascii (lit ''Jane Doe''))"
    by (simp add: jane_path is_cache_valid_def get_cache_age_hours_def CACHE_DURATION_HOURS_def)
  have fails: "scrape_profile_posts \<lparr>scrape_profile_posts = \<lambda>url. Inr (), build_index = \<lambda>posts. Inr True,
        train = \<lambda>posts. Inl (Exception (lit ''no attribute train'')), create_post = \<lambda>c t. Inr c\<rparr> (lit ''u'') = Inl (Exception (lit ''no attribute train'')) \<or>
                (\<exists>posts. scrape_profile_posts \<lparr>scrape_profile_posts = \<lambda>url. Inr (), build_index = \<lambda>posts. Inr True,
        train = \<lambda>posts. Inl (Exception (lit ''no attribute train'')), create_post = \<lambda>c t. Inr c\<rparr> (lit ''u'') = Inr posts \<and>
                   (build_index \<lparr>scrape_profile_posts = \<lambda>url. Inr (), build_index = \<lambda>posts. Inr True,
        train = \<lambda>posts. Inl (Exception (lit ''no attribute train'')), create_post = \<lambda>c t. Inr c\<rparr> posts = Inl (Exception (lit ''no attribute train'')) \<or>
                    (\<exists>built. build_index \<lparr>scrape_profile_posts = \<lambda>url. Inr (), build_index = \<lambda>posts. Inr True,
        train = \<lambda>posts. Inl (Exception (lit ''no attribute train'')), create_post = \<lambda>c t. Inr c\<rparr> posts = Inr built \<and> train \<lparr>scrape_profile_posts = \<lambda>url. Inr (), build_index = \<lambda>posts. Inr True,
        train = \<lambda>posts. Inl (Exception (lit ''no attribute train'')), create_post = \<lambda>c t. Inr c\<rparr> posts = Inl (Exception (lit ''no attribute train'')))))"
    by auto
  show ?thesis
    using rebuild_failure_keeps_cache [OF jane_request miss fails] by simp
qed

text \<open>
  C1, as stated, fails. A request with all three fields given gets a failure response
  when the scraper raises; and the response built for a successful run (lines 149-154)
  names the third member of \<open>meta\<close> \<open>generation_time\<close>.
\<close>

theorem generate_always_succeeds_counterexample:
  "generate ascii
      \<lparr>scrape_profile_posts = \<lambda>url. Inl (Exception (lit ''chrome not reachable'')) :: exn + unit,
        build_index = \<lambda>posts. Inr True, train = \<lambda>posts. Inr JNull, create_post = \<lambda>c t. Inr c\<rparr>
      \<lparr>t_start = 0, t_check = 1, t_write = 2, t_meta = 3, t_end = 5\<rparr>
      Map.empty
      \<lparr>profileUrl = Some (lit ''u''), profileName = Some (lit '' Jane Doe''),
        criteria = Some (lit ''c''), forceRefresh = None\<rparr> =
     (Map.empty, JObj [(lit ''success'', JBool False), (lit ''error'', JStr (lit ''chrome not reachable''))], 500) \<and>
   success (lit ''c'') True (Some 2) 5 =
     (JObj [(lit ''success'', JBool True), (lit ''post'', JStr (lit ''c'')),
            (lit ''meta'', JObj [(lit ''used_cache'', JBool True),
                                 (lit ''cache_age_hours'', JNum 2),
                                 (lit ''generation_time'', JNum 5)])], 200)"
  by (simp add: generate_steps [OF jane_request] jane_path load_or_rebuild_def rebuild_def
        is_cache_valid_def get_cache_age_hours_def failure_def success_def json_of_age_def)

text \<open>
  C1, amended. For a request whose three fields are not empty after trimming: when the
  cache step and \<open>create_post\<close> return, the response is the success response with the
  post text and a \<open>meta\<close> object of exactly the members \<open>used_cache\<close>, \<open>cache_age_hours\<close>
  and \<open>generation_time\<close>, with status 200; when either raises, it is the failure
  response with the exception's message and status 500.
\<close>

theorem generate_result:
  assumes "strip (get (profileUrl data) []) = url" and "strip (get (profileName data) []) = name"
    and "strip (get (criteria data) []) = crit" and "url \<noteq> []" and "name \<noteq> []" and "crit \<noteq> []"
  shows "(load_or_rebuild co clk fs (get_cache_path u name) url (get (forceRefresh data) False) = (fs', Inr (trained_data, used_cache)) \<and>
          create_post co crit trained_data = Inr post_text \<longrightarrow>
            generate u co clk fs data =
              (fs', JObj [(lit ''success'', JBool True),
                          (lit ''post'', JStr post_text),
                          (lit ''meta'',
                             JObj [(lit ''used_cache'', JBool used_cache),
                                   (lit ''cache_age_hours'',
                                      json_of_age (get_cache_age_hours fs' (t_meta clk) (get_cache_path u name))),
                                   (lit ''generation_time'', JNum (round2 (t_end clk - t_start clk)))])], 200)) \<and>
         (load_or_rebuild co clk fs (get_cache_path u name) url (get (forceRefresh data) False) = (fs', Inl e) \<longrightarrow>
            generate u co clk fs data = (fs', failure (message e) 500)) \<and>
         (load_or_rebuild co clk fs (get_cache_path u name) url (get (forceRefresh data) False) = (fs', Inr (trained_data, used_cache)) \<and>
          create_post co crit trained_data = Inl e \<longrightarrow>
            generate u co clk fs data = (fs', failure (message e) 500))"
  by (simp add: generate_steps [OF assms] success_def)

theorem generate_result_witness:
  "generate ascii
      \<lparr>scrape_profile_posts = \<lambda>url. Inr (), build_index = \<lambda>posts. Inr True,
        train = \<lambda>posts. Inr (JStr (lit ''new'')), create_post = \<lambda>c t. Inr c\<rparr>
      \<lparr>t_start = 8200, t_check = 8200, t_write = 8200, t_meta = 8200, t_end = 8205\<rparr>
      [lit ''cache/jane_doe.json'' \<mapsto> \<lparr>content = Inr (JStr (lit ''old'')), mtime = 1000\<rparr>]
      \<lparr>profileUrl = Some (lit ''u''), profileName = Some (lit '' Jane Doe''),
        criteria = Some (lit ''c''), forceRefresh = None\<rparr> =
     ([lit ''cache/jane_doe.json'' \<mapsto> \<lparr>content = Inr (JStr (lit ''old'')), mtime = 1000\<rparr>],
      JObj [(lit ''success'', JBool True), (lit ''post'', JStr (lit ''c'')),
            (lit ''meta'', JObj [(lit ''used_cache'', JBool True),
                                 (lit ''cache_age_hours'', JNum 2),
                                 (lit ''generation_time'', JNum 5)])], 200)"
proof -
  have l: "load_or_rebuild
      \<lparr>scrape_profile_posts = \<lambda>url. Inr (), build_index = \<lambda>posts. Inr True,
        train = \<lambda>posts. Inr (JStr (lit ''new'')), create_post = \<lambda>c t. Inr c\<rparr>
      \<lparr>t_start = 8200, t_check = 8200, t_write = 8200, t_meta = 8200, t_end = 8205\<rparr>
      [lit ''cache/jane_doe.json'' \<mapsto> \<lparr>content = Inr (JStr (lit ''old'')), mtime = 1000\<rparr>]
      (get_cache_path ascii (lit ''Jane Doe'')) (lit ''u'')
      (get (forceRefresh \<lparr>profileUrl = Some (lit ''u''), profileName = Some (lit '' Jane Doe''),
        criteria = Some (lit ''c''), forceRefresh = None\<rparr>) False) =
     ([lit ''cache/jane_doe.json'' \<mapsto> \<lparr>content = Inr (JStr (lit ''old'')), mtime = 1000\<rparr>],
      Inr (JStr (lit ''old''), True))"
    by (simp add: jane_path load_or_rebuild_def is_cache_valid_def get_cache_age_hours_def
          CACHE_DURATION_HOURS_def get_def)
  show ?thesis
    using generate_result [OF jane_request, where u = ascii and fs' = "[lit ''cache/jane_doe.json'' \<mapsto> \<lparr>content = Inr (JStr (lit ''old'')), mtime = 1000\<rparr>]"
        and trained_data = "JStr (lit ''old'')" and used_cache = True and post_text = "lit ''c''"
        and e = "Exception []"
        and clk = "\<lparr>t_start = 8200, t_check = 8200, t_write = 8200, t_meta = 8200, t_end = 8205\<rparr>"
        and fs = "[lit ''cache/jane_doe.json'' \<mapsto> \<lparr>content = Inr (JStr (lit ''old'')), mtime = 1000\<rparr>]"
        and co = "\<lparr>scrape_profile_posts = \<lambda>url. Inr (), build_index = \<lambda>posts. Inr True,
        train = \<lambda>posts. Inr (JStr (lit ''new'')), create_post = \<lambda>c t. Inr c\<rparr>"]
      l
    by (simp add: jane_path get_cache_age_hours_def json_of_age_def round2_5)
qed


section \<open>The normalizer\<close>

subsection \<open>Stripping, lines and joins\<close>

lemma is_linebreak_space: "is_linebreak c \<Longrightarrow> is_space c"
  by (auto simp: is_linebreak_def is_space_def)

lemma in_dropWhile: "x \<in> set xs \<Longrightarrow> \<not> P x \<Longrightarrow> x \<in> set (dropWhile P xs)"
  by (induction xs) auto

lemma last_dropWhile: "dropWhile P xs \<noteq> [] \<Longrightarrow> last (dropWhile P xs) = last xs"
  by (induction xs) (auto split: if_splits)

lemma in_strip: "c \<in> set s \<Longrightarrow> \<not> is_space c \<Longrightarrow> c \<in> set (strip s)"
  by (simp add: strip_def lstrip_def rstrip_def in_dropWhile)

lemma set_strip: "c \<in> set (strip s) \<Longrightarrow> c \<in> set s"
  by (auto simp: strip_def lstrip_def rstrip_def dest!: set_dropWhileD)

lemma strip_id: "s \<noteq> [] \<Longrightarrow> \<not> is_space (hd s) \<Longrightarrow> \<not> is_space (last s) \<Longrightarrow> strip s = s"
proof -
  assume a: "s \<noteq> []" "\<not> is_space (hd s)" "\<not> is_space (last s)"
  then have 1: "dropWhile is_space s = s" by (cases s) auto
  have "rev s \<noteq> []" "\<not> is_space (hd (rev s))" using a by (simp_all add: hd_rev)
  then have 2: "dropWhile is_space (rev s) = rev s" by (cases "rev s") auto
  show ?thesis by (simp add: strip_def lstrip_def rstrip_def 1 2)
qed

lemma strip_ends:
  assumes "strip s \<noteq> []"
  shows "\<not> is_space (hd (strip s)) \<and> \<not> is_space (last (strip s))"
proof -
  define t where "t = dropWhile is_space s"
  define r where "r = dropWhile is_space (rev t)"
  have s: "strip s = rev r" by (simp add: strip_def lstrip_def rstrip_def t_def r_def)
  with assms have r: "r \<noteq> []" by simp
  then have t: "t \<noteq> []" by (auto simp: r_def)
  have 1: "\<not> is_space (hd r)" using r unfolding r_def by (rule hd_dropWhile)
  have "last r = last (rev t)" using r unfolding r_def by (rule last_dropWhile)
  also have "\<dots> = hd t" using t by (simp add: last_rev)
  finally have 2: "\<not> is_space (last r)" using t hd_dropWhile [of is_space s] by (simp add: t_def)
  show ?thesis using 1 2 r by (simp add: s hd_rev last_rev)
qed

lemma strip_Nil: "strip [] = []"
  by (simp add: strip_def lstrip_def rstrip_def)

lemma strip_strip: "strip (strip s) = strip s"
proof (cases "strip s = []")
  case True
  then show ?thesis by (simp add: strip_Nil)
next
  case False
  with strip_ends [OF False] show ?thesis by (simp add: strip_id)
qed

lemma strip_has_nonspace: "strip s \<noteq> [] \<Longrightarrow> \<exists>c\<in>set (strip s). \<not> is_space c"
  using strip_ends [of s] by (metis hd_in_set)

lemma strip_nonempty: "c \<in> set s \<Longrightarrow> \<not> is_space c \<Longrightarrow> strip s \<noteq> []"
  using in_strip by fastforce

lemma splitlines_CRLF: "splitlines (0x0D # 0x0A # cs) = [] # splitlines cs"
  by simp

lemma splitlines_break:
  "is_linebreak c \<Longrightarrow> \<not> (c = 0x0D \<and> cs \<noteq> [] \<and> hd cs = 0x0A) \<Longrightarrow> splitlines (c # cs) = [] # splitlines cs"
  by (cases cs) auto

lemma splitlines_char:
  "\<not> is_linebreak c \<Longrightarrow>
     splitlines (c # cs) = (case splitlines cs of [] \<Rightarrow> [[c]] | l # ls \<Rightarrow> (c # l) # ls)"
  by (auto simp: is_linebreak_def)

lemma splitlines_cases [case_names Nil CRLF Break Char]:
  assumes "P []"
    and "\<And>cs. P cs \<Longrightarrow> P (0x0D # 0x0A # cs)"
    and "\<And>c cs. is_linebreak c \<Longrightarrow> \<not> (c = 0x0D \<and> cs \<noteq> [] \<and> hd cs = 0x0A) \<Longrightarrow> P cs \<Longrightarrow> P (c # cs)"
    and "\<And>c cs. \<not> is_linebreak c \<Longrightarrow> P cs \<Longrightarrow> P (c # cs)"
  shows "P s"
proof (induction s rule: length_induct)
  case (1 xs)
  show ?case
  proof (cases xs)
    case Nil
    with assms(1) show ?thesis by simp
  next
    case (Cons c cs)
    show ?thesis
    proof (cases "is_linebreak c")
      case False
      with 1 Cons assms(4) show ?thesis by simp
    next
      case True
      show ?thesis
      proof (cases "c = 0x0D \<and> cs \<noteq> [] \<and> hd cs = 0x0A")
        case False
        with True 1 Cons assms(3) show ?thesis by simp
      next
        case crlf: True
        then obtain ds where "cs = 0x0A # ds" by (cases cs) auto
        with crlf 1 Cons assms(2) show ?thesis by simp
      qed
    qed
  qed
qed

lemma splitlines_no_break_all: "\<forall>l\<in>set (splitlines s). \<forall>c\<in>set l. \<not> is_linebreak c"
proof (induction s rule: splitlines_cases)
  case Nil
  then show ?case by simp
next
  case (CRLF cs)
  then show ?case by (simp add: splitlines_CRLF del: splitlines.simps(2))
next
  case (Break a cs)
  then show ?case by (simp add: splitlines_break del: splitlines.simps(2))
next
  case (Char a cs)
  then show ?case
    by (cases "splitlines cs") (simp_all add: splitlines_char del: splitlines.simps(2))
qed

lemma splitlines_no_break: "l \<in> set (splitlines s) \<Longrightarrow> c \<in> set l \<Longrightarrow> \<not> is_linebreak c"
  using splitlines_no_break_all by blast

lemma splitlines_covers:
  "c \<in> set s \<Longrightarrow> \<not> is_linebreak c \<Longrightarrow> \<exists>l\<in>set (splitlines s). c \<in> set l"
proof (induction s rule: splitlines_cases)
  case Nil
  then show ?case by simp
next
  case (CRLF cs)
  then show ?case by (auto simp: splitlines_CRLF is_linebreak_def simp del: splitlines.simps(2))
next
  case (Break a cs)
  then show ?case by (auto simp: splitlines_break simp del: splitlines.simps(2))
next
  case (Char a cs)
  then show ?case
    by (cases "splitlines cs") (auto simp: splitlines_char simp del: splitlines.simps(2))
qed

lemma splitlines_line:
  "\<forall>c\<in>set l. \<not> is_linebreak c \<Longrightarrow> splitlines (l @ 0x0A # rest) = l # splitlines rest"
proof (induction l)
  case Nil
  have "is_linebreak 0x0A" by (simp add: is_linebreak_def)
  then show ?case by (simp add: splitlines_break del: splitlines.simps(2))
next
  case (Cons a l)
  then show ?case by (simp add: splitlines_char del: splitlines.simps(2))
qed

lemma splitlines_single:
  "l \<noteq> [] \<Longrightarrow> \<forall>c\<in>set l. \<not> is_linebreak c \<Longrightarrow> splitlines l = [l]"
proof (induction l)
  case Nil
  then show ?case by simp
next
  case (Cons a l)
  then show ?case by (cases "l = []") (simp_all add: splitlines_char del: splitlines.simps(2))
qed

lemma join_Cons: "M \<noteq> [] \<Longrightarrow> join sep (x # M) = x @ sep @ join sep M"
  by (cases M) simp_all

lemma splitlines_join:
  "M \<noteq> [] \<Longrightarrow> last M \<noteq> [] \<Longrightarrow> \<forall>l\<in>set M. \<forall>c\<in>set l. \<not> is_linebreak c \<Longrightarrow>
     splitlines (join [0x0A] M) = M"
proof (induction M)
  case Nil
  then show ?case by simp
next
  case (Cons x M)
  show ?case
  proof (cases "M = []")
    case True
    with Cons.prems show ?thesis by (simp add: splitlines_single del: splitlines.simps(2))
  next
    case False
    with Cons show ?thesis by (simp add: join_Cons splitlines_line del: splitlines.simps(2))
  qed
qed

lemma set_join: "l \<in> set M \<Longrightarrow> c \<in> set l \<Longrightarrow> c \<in> set (join sep M)"
  by (induction sep M rule: join.induct) auto

lemma hd_join: "M \<noteq> [] \<Longrightarrow> hd M \<noteq> [] \<Longrightarrow> hd (join sep M) = hd (hd M)"
  by (induction sep M rule: join.induct) auto

lemma join_nonempty_last: "M \<noteq> [] \<Longrightarrow> last M \<noteq> [] \<Longrightarrow> join sep M \<noteq> []"
  by (induction sep M rule: join.induct) auto

lemma last_join: "M \<noteq> [] \<Longrightarrow> last M \<noteq> [] \<Longrightarrow> last (join sep M) = last (last M)"
proof (induction sep M rule: join.induct)
  case (3 sep x y ys)
  then have "join sep (y # ys) \<noteq> []" by (intro join_nonempty_last) auto
  with 3 show ?case by simp
qed simp_all

lemma join_nonempty: "M \<noteq> [] \<Longrightarrow> hd M \<noteq> [] \<Longrightarrow> join sep M \<noteq> []"
  by (induction sep M rule: join.induct) auto

lemma dedup_loop_set:
  "seen = set acc \<Longrightarrow>
     set (dedup_loop ls acc seen) = set acc \<union> (strip ` set ls - {[]})"
proof (induction ls arbitrary: acc seen)
  case Nil
  then show ?case by simp
next
  case (Cons l ls)
  show ?case
  proof (cases "strip l \<noteq> [] \<and> strip l \<notin> seen")
    case True
    have "insert (strip l) seen = set (acc @ [strip l])" using Cons.prems by simp
    from Cons.IH [OF this] True show ?thesis by (auto simp: Let_def)
  next
    case False
    with Cons.IH [OF Cons.prems] Cons.prems show ?thesis by (auto simp: Let_def)
  qed
qed

lemma dedup_loop_distinct:
  "seen = set acc \<Longrightarrow> distinct acc \<Longrightarrow> distinct (dedup_loop ls acc seen)"
proof (induction ls arbitrary: acc seen)
  case Nil
  then show ?case by simp
next
  case (Cons l ls)
  show ?case
  proof (cases "strip l \<noteq> [] \<and> strip l \<notin> seen")
    case True
    have 1: "insert (strip l) seen = set (acc @ [strip l])" using Cons.prems by simp
    have 2: "distinct (acc @ [strip l])" using True Cons.prems by simp
    from Cons.IH [OF 1 2] True show ?thesis by (simp add: Let_def)
  next
    case False
    with Cons show ?thesis by (auto simp: Let_def)
  qed
qed

lemma dedup_loop_blanks:
  "seen = set acc \<Longrightarrow> \<forall>l\<in>set ls. strip l = l \<Longrightarrow> distinct (acc @ filter (\<lambda>l. l \<noteq> []) ls) \<Longrightarrow>
     dedup_loop ls acc seen = acc @ filter (\<lambda>l. l \<noteq> []) ls"
proof (induction ls arbitrary: acc seen)
  case Nil
  then show ?case by simp
next
  case (Cons l ls)
  have 3: "\<forall>l\<in>set ls. strip l = l" using Cons.prems by simp
  have s: "strip l = l" using Cons.prems by simp
  show ?case
  proof (cases "l = []")
    case True
    with Cons.prems have "distinct (acc @ filter (\<lambda>l. l \<noteq> []) ls)" by simp
    from Cons.IH [OF Cons.prems(1) 3 this] True s show ?thesis by (simp add: Let_def)
  next
    case False
    have 1: "insert l seen = set (acc @ [l])" using Cons.prems by simp
    have 2: "distinct ((acc @ [l]) @ filter (\<lambda>l. l \<noteq> []) ls)" using Cons.prems False by simp
    have "l \<notin> seen" using Cons.prems False by auto
    with Cons.IH [OF 1 3 2] False s show ?thesis by (simp add: Let_def)
  qed
qed

text \<open>The lines \<open>deduplicate_text\<close> keeps.\<close>

lemma kept_lines:
  assumes "l \<in> set (dedup_loop (splitlines x) [] {})"
  shows "l \<noteq> [] \<and> strip l = l \<and> (\<forall>c\<in>set l. \<not> is_linebreak c)"
proof -
  from assms dedup_loop_set [of "{}" "[]" "splitlines x"]
  obtain l' where l': "l' \<in> set (splitlines x)" "l = strip l'" "strip l' \<noteq> []" by auto
  have "\<forall>c\<in>set l. \<not> is_linebreak c"
    using l' splitlines_no_break set_strip by blast
  with l' show ?thesis by (simp add: strip_strip)
qed

lemma join_kept_stripped:
  assumes "R \<noteq> []" and "\<forall>l\<in>set R. l \<noteq> [] \<and> strip l = l"
  shows "strip (join sep R) = join sep R"
proof -
  have h: "hd R \<in> set R" "last R \<in> set R" using assms(1) by simp_all
  then have "hd R \<noteq> []" "last R \<noteq> []" "strip (hd R) = hd R" "strip (last R) = last R"
    using assms(2) by auto
  then have "\<not> is_space (hd (hd R))" "\<not> is_space (last (last R))"
    using strip_ends [of "hd R"] strip_ends [of "last R"] by auto
  then show ?thesis
    using assms(1) \<open>hd R \<noteq> []\<close> \<open>last R \<noteq> []\<close>
    by (intro strip_id) (simp_all add: hd_join last_join join_nonempty)
qed

lemma deduplicate_join:
  assumes "R \<noteq> []" and "distinct R"
    and "\<forall>l\<in>set R. l \<noteq> [] \<and> strip l = l \<and> (\<forall>c\<in>set l. \<not> is_linebreak c)"
  shows "deduplicate_text (join [0x0A] R) = join [0x0A] R"
proof -
  have "last R \<in> set R" using assms(1) by simp
  then have "last R \<noteq> []" using assms(3) by blast
  then have "splitlines (join [0x0A] R) = R"
    using assms by (intro splitlines_join) auto
  moreover have "filter (\<lambda>l. l \<noteq> []) R = R"
    using assms(3) by (simp add: filter_id_conv)
  then have "dedup_loop R [] {} = R"
    using assms dedup_loop_blanks [of "{}" "[]" R] by simp
  ultimately show ?thesis
    using join_kept_stripped [of R] assms by (simp add: deduplicate_text_def)
qed

lemma deduplicate_nonempty:
  assumes "c \<in> set x" and "\<not> is_space c"
  shows "deduplicate_text x \<noteq> []"
proof -
  have "\<not> is_linebreak c" using assms(2) is_linebreak_space by blast
  with assms(1) obtain l where l: "l \<in> set (splitlines x)" "c \<in> set l"
    using splitlines_covers by blast
  then have n: "strip l \<noteq> []" using assms(2) strip_nonempty by blast
  then have "strip l \<in> set (dedup_loop (splitlines x) [] {})"
    using l dedup_loop_set [of "{}" "[]" "splitlines x"] by auto
  moreover obtain c' where "c' \<in> set (strip l)" "\<not> is_space c'"
    using strip_has_nonspace [OF n] by blast
  ultimately have "c' \<in> set (join [0x0A] (dedup_loop (splitlines x) [] {}))"
    using set_join by blast
  then show ?thesis
    using \<open>\<not> is_space c'\<close> strip_nonempty by (simp add: deduplicate_text_def)
qed

lemma question_mark_kept:
  assumes "post \<noteq> []"
  shows "0x3F \<in> set (apply_post_processing u post idea)"
proof -
  have q: "\<not> is_space 0x3F" by (simp add: is_space_def)
  have w: "0x3F \<in> set (lit ''What do you think?'')" by (simp add: lit_def)
  show ?thesis
    using assms w unfolding apply_post_processing_def Let_def
    by (auto intro!: in_strip q)
qed

subsection \<open>The closing question\<close>

text \<open>
  C6, as stated, fails: \<open>apply_post_processing\<close> returns an empty post as it is (line 174),
  and \<open>deduplicate_text\<close> makes the empty post of a text without a visible character.
\<close>

theorem normalize_empty_counterexample:
  "normalize_post ascii [] (lit ''machine learning'') = [] \<and>
   0x3F \<notin> set (normalize_post ascii [0x20, 0x0A, 0x20] (lit ''machine learning''))"
  by (simp add: normalize_post_def deduplicate_text_def apply_post_processing_def strip_def lstrip_def
        rstrip_def is_space_def is_linebreak_def)

lemma splitlines_subset_all: "\<forall>l\<in>set (splitlines s). set l \<subseteq> set s"
proof (induction s rule: splitlines_cases)
  case Nil
  then show ?case by simp
next
  case (CRLF cs)
  then show ?case by (auto simp: splitlines_CRLF simp del: splitlines.simps(2))
next
  case (Break a cs)
  then show ?case by (auto simp: splitlines_break simp del: splitlines.simps(2))
next
  case (Char a cs)
  then show ?case
    by (cases "splitlines cs") (auto simp: splitlines_char simp del: splitlines.simps(2))
qed

lemma strip_blank: "\<forall>c\<in>set l. is_space c \<Longrightarrow> strip l = []"
proof -
  assume "\<forall>c\<in>set l. is_space c"
  then have d: "dropWhile is_space l = []" by (induction l) simp_all
  show ?thesis unfolding strip_def lstrip_def rstrip_def d by simp
qed

lemma deduplicate_blank:
  assumes "\<forall>c\<in>set x. is_space c"
  shows "deduplicate_text x = []"
proof -
  have "strip l = []" if "l \<in> set (splitlines x)" for l
    using that assms splitlines_subset_all [of x] by (intro strip_blank) blast
  then have "strip ` set (splitlines x) - {[]} = {}" by auto
  then have "set (dedup_loop (splitlines x) [] {}) = {}"
    using dedup_loop_set [of "{}" "[]" "splitlines x"] by simp
  then show ?thesis by (simp add: deduplicate_text_def strip_Nil)
qed

text \<open>
  C6, amended. For every text with at least one character that is not whitespace, and
  every idea, the normalized text contains a question mark; for every text of whitespace
  only, the empty text included, the normalized text is empty.
\<close>

theorem normalize_question_mark:
  "((\<exists>c\<in>set text. \<not> is_space c) \<longrightarrow> 0x3F \<in> set (normalize_post u text idea)) \<and>
   ((\<forall>c\<in>set text. is_space c) \<longrightarrow> normalize_post u text idea = [])"
proof -
  have a: "0x3F \<in> set (normalize_post u text idea)" if "\<exists>c\<in>set text. \<not> is_space c"
  proof -
    from that obtain c where "c \<in> set text" "\<not> is_space c" by blast
    then have "deduplicate_text text \<noteq> []" by (rule deduplicate_nonempty)
    then show ?thesis unfolding normalize_post_def by (rule question_mark_kept)
  qed
  have b: "normalize_post u text idea = []" if "\<forall>c\<in>set text. is_space c"
    using deduplicate_blank [OF that] by (simp add: normalize_post_def apply_post_processing_def)
  from a b show ?thesis by blast
qed

theorem normalize_question_mark_witness:
  "0x3F \<in> set (normalize_post ascii (lit ''Hello'') (lit ''machine learning'')) \<and>
   normalize_post ascii [0x20, 0x0A, 0x20] (lit ''machine learning'') = []"
proof -
  have a: "\<exists>c\<in>set (lit ''Hello''). \<not> is_space c" by (simp add: lit_def is_space_def)
  have b: "\<forall>c\<in>set [0x20, 0x0A, 0x20]. is_space c" by (simp add: is_space_def)
  from normalize_question_mark [of "lit ''Hello''" ascii "lit ''machine learning''"]
       normalize_question_mark [of "[0x20, 0x0A, 0x20]" ascii "lit ''machine learning''"] a b
  show ?thesis by blast
qed


subsection \<open>Applying the normalizer again\<close>

lemma hello_once:
  "normalize_post ascii (lit ''Hello'') [] = lit ''Hello'' @ [0x0A, 0x0A] @ lit ''What do you think?''"
  by (simp add: normalize_post_def deduplicate_text_def apply_post_processing_def strip_def lstrip_def
        rstrip_def is_space_def is_linebreak_def lit_def startswith_def)

lemma hello_twice:
  "normalize_post ascii (lit ''Hello'' @ [0x0A, 0x0A] @ lit ''What do you think?'') [] =
     lit ''Hello'' @ [0x0A] @ lit ''What do you think?''"
  by (simp add: normalize_post_def deduplicate_text_def apply_post_processing_def strip_def lstrip_def
        rstrip_def is_space_def is_linebreak_def lit_def startswith_def)

text \<open>
  C5, as stated, fails. The text \<open>Hello\<close> gets the closing question after a blank line;
  normalizing the result drops the blank line.
\<close>

theorem normalize_idempotent_counterexample:
  "normalize_post ascii (normalize_post ascii (lit ''Hello'') []) [] \<noteq> normalize_post ascii (lit ''Hello'') []"
  unfolding hello_once hello_twice by (simp add: lit_def)

lemma apply_post_processing_assembled:
  "post \<noteq> [] \<Longrightarrow>
     apply_post_processing u post idea =
       assembled (filter (\<lambda>line. \<not> startswith (strip line) (lit ''#'')) (splitlines post)) (hashtags_of u idea)"
  by (simp add: apply_post_processing_def assembled_def hashtags_of_def Let_def)

lemma startswith_hash: "startswith s (lit ''#'') \<longleftrightarrow> s \<noteq> [] \<and> hd s = 0x23"
  by (cases s) (simp_all add: startswith_def lit_def)

lemma in_join_LF: "c \<noteq> 0x0A \<Longrightarrow> c \<in> set (join [0x0A] M) \<longleftrightarrow> (\<exists>l\<in>set M. c \<in> set l)"
  by (induction "[0x0A::nat]" M rule: join.induct) auto

lemma in_joinD: "c \<in> set (join sep M) \<Longrightarrow> c \<in> set sep \<or> (\<exists>l\<in>set M. c \<in> set l)"
  by (induction sep M rule: join.induct) auto

lemma join_append: "A \<noteq> [] \<Longrightarrow> B \<noteq> [] \<Longrightarrow> join sep (A @ B) = join sep A @ sep @ join sep B"
proof (induction A)
  case Nil
  then show ?case by simp
next
  case (Cons a A)
  then show ?case by (cases "A = []") (simp_all add: join_Cons)
qed

lemma clean_ends: "clean l \<Longrightarrow> l \<noteq> [] \<and> \<not> is_space (hd l) \<and> \<not> is_space (last l)"
  using strip_ends [of l] by (simp add: clean_def)

lemma cleanI: "l \<noteq> [] \<Longrightarrow> \<not> is_space (hd l) \<Longrightarrow> \<not> is_space (last l) \<Longrightarrow> \<forall>c\<in>set l. \<not> is_linebreak c \<Longrightarrow> clean l"
  by (simp add: clean_def strip_id)

lemma clean_prompt: "clean (lit ''What do you think?'')"
  by (rule cleanI) (simp_all add: lit_def is_space_def is_linebreak_def)

lemma prompt_facts: "hd (lit ''What do you think?'') \<noteq> 0x23" "0x3F \<in> set (lit ''What do you think?'')"
  "lit ''What do you think?'' \<noteq> []"
  by (simp_all add: lit_def)

lemma split_space: "is_space c \<Longrightarrow> split (c # cs) = split cs"
  by simp

lemma split_word:
  "\<not> is_space c \<Longrightarrow>
     split (c # cs) =
       (if cs = [] \<or> is_space (hd cs) then [c] # split cs
        else (case split cs of [] \<Rightarrow> [[c]] | w # ws \<Rightarrow> (c # w) # ws))"
  by (cases cs) simp_all

lemma split_no_space_all: "\<forall>w\<in>set (split s). \<forall>c\<in>set w. \<not> is_space c"
proof (induction s)
  case Nil
  then show ?case by simp
next
  case (Cons a s)
  show ?case
  proof (cases "is_space a")
    case True
    with Cons show ?thesis by (simp add: split_space del: split.simps(2))
  next
    case False
    with Cons show ?thesis
      by (cases "split s") (simp_all add: split_word del: split.simps(2))
  qed
qed

lemma split_no_space: "w \<in> set (split s) \<Longrightarrow> c \<in> set w \<Longrightarrow> \<not> is_space c"
  using split_no_space_all by blast

lemma hashtags_tagline:
  assumes cap: "\<forall>w. (\<forall>c\<in>set w. \<not> is_space c) \<longrightarrow> (\<forall>c\<in>set (capitalize u w). \<not> is_space c)"
  shows "tagline (hashtags_of u idea)"
proof -
  define ws where "ws = take 3 (filter (\<lambda>w. length w > 3) (split idea))"
  define T where "T = map (\<lambda>w. lit ''#'' @ capitalize u w) ws"
  have H: "hashtags_of u idea = join (lit '' '') T" by (simp add: hashtags_of_def T_def ws_def)
  have wsp: "\<forall>c\<in>set w. \<not> is_space c" if "w \<in> set ws" for w
  proof -
    from that have "w \<in> set (split idea)" unfolding ws_def by (auto dest: in_set_takeD)
    then show ?thesis using split_no_space by blast
  qed
  have el: "t \<noteq> [] \<and> hd t = 0x23 \<and> (\<forall>c\<in>set t. \<not> is_space c)" if "t \<in> set T" for t
  proof -
    from that obtain w where w: "w \<in> set ws" "t = lit ''#'' @ capitalize u w" unfolding T_def by auto
    have "\<forall>c\<in>set (capitalize u w). \<not> is_space c" using cap wsp [OF w(1)] by blast
    then show ?thesis using w(2) by (auto simp: lit_def is_space_def)
  qed
  show ?thesis
  proof (cases "T = []")
    case True
    then show ?thesis by (simp add: H tagline_def)
  next
    case False
    have h: "hd T \<in> set T" "last T \<in> set T" using False by simp_all
    have ne: "join (lit '' '') T \<noteq> []" using False el [OF h(1)] by (intro join_nonempty) auto
    have hd: "hd (join (lit '' '') T) = 0x23" using False el [OF h(1)] by (simp add: hd_join)
    have "last (join (lit '' '') T) = last (last T)" using False el [OF h(2)] by (simp add: last_join)
    then have la: "\<not> is_space (last (join (lit '' '') T))" using el [OF h(2)] by simp
    have nb: "\<forall>c\<in>set (join (lit '' '') T). \<not> is_linebreak c"
    proof
      fix c assume "c \<in> set (join (lit '' '') T)"
      then have "c \<in> set (lit '' '') \<or> (\<exists>t\<in>set T. c \<in> set t)" by (rule in_joinD)
      then show "\<not> is_linebreak c"
      proof
        assume "c \<in> set (lit '' '')"
        then show ?thesis by (simp add: lit_def is_linebreak_def)
      next
        assume "\<exists>t\<in>set T. c \<in> set t"
        then show ?thesis using el is_linebreak_space by blast
      qed
    qed
    have "\<not> is_space (hd (join (lit '' '') T))" using hd by (simp add: is_space_def)
    with ne la nb have "clean (join (lit '' '') T)" by (intro cleanI)
    with hd show ?thesis by (simp add: H tagline_def)
  qed
qed

lemma strip_lead: "is_space a \<Longrightarrow> strip (a # s) = strip s"
  by (simp add: strip_def lstrip_def)

lemma strip_join_ends:
  assumes "M \<noteq> []" and "clean (hd M)" and "clean (last M)"
  shows "strip (join sep M) = join sep M"
proof -
  have "hd M \<noteq> []" "last M \<noteq> []" "\<not> is_space (hd (hd M))" "\<not> is_space (last (last M))"
    using clean_ends [OF assms(2)] clean_ends [OF assms(3)] by simp_all
  then show ?thesis
    using assms(1) by (intro strip_id) (simp_all add: hd_join last_join join_nonempty)
qed

lemma assembled_layout:
  assumes K: "\<forall>l\<in>set K. clean l" and H: "tagline H"
  shows "assembled K H = join [0x0A] (layout K H) \<and> layout K H \<noteq> [] \<and> last (layout K H) \<noteq> [] \<and>
         (\<forall>l\<in>set (layout K H). l = [] \<or> clean l) \<and>
         filter (\<lambda>l. l \<noteq> []) (layout K H) =
           K @ (if H \<noteq> [] then [H] else []) @
             (if 0x3F \<notin> set (join [0x0A] K) \<and> 0x3F \<notin> set H then [lit ''What do you think?''] else [])"
proof -
  define W where "W = lit ''What do you think?''"
  define needs where "needs \<longleftrightarrow> 0x3F \<notin> set (join [0x0A] K) \<and> 0x3F \<notin> set H"
  define BH where "BH = (if H \<noteq> [] then [[], H] else [])"
  define BW where "BW = (if needs then [[], W] else [])"
  have cW: "clean W" "W \<noteq> []" unfolding W_def by (simp_all add: clean_prompt prompt_facts)
  have cH: "clean H" if "H \<noteq> []" using H that by (simp add: tagline_def)
  have filt: "filter (\<lambda>l. l \<noteq> []) (BH @ BW) =
      (if H \<noteq> [] then [H] else []) @ (if needs then [W] else [])"
    using cW by (simp add: BH_def BW_def)
  have tail: "\<forall>l\<in>set (BH @ BW). l = [] \<or> clean l"
    using cW cH by (auto simp: BH_def BW_def)
  have fK: "filter (\<lambda>l. l \<noteq> []) K = K"
    using K by (auto simp: filter_id_conv clean_def)
  have asm: "assembled K H =
      strip ((join [0x0A] K @ (if H \<noteq> [] then [0x0A, 0x0A] @ H else [])) @ (if needs then [0x0A, 0x0A] @ W else []))"
    by (auto simp: assembled_def Let_def needs_def W_def)
  have lay: "layout K H = (if K = [] then drop 1 (BH @ BW) else K @ BH @ BW)"
    by (simp add: layout_def Let_def BH_def BW_def needs_def W_def)
  show ?thesis
  proof (cases "K = []")
    case False
    define M where "M = K @ BH @ BW"
    have lM: "layout K H = M" using False by (simp add: lay M_def)
    have 1: "join [0x0A] (K @ BH) = join [0x0A] K @ (if H \<noteq> [] then [0x0A, 0x0A] @ H else [])"
      using False by (simp add: BH_def join_append)
    have 2: "join [0x0A] ((K @ BH) @ BW) = join [0x0A] (K @ BH) @ (if needs then [0x0A, 0x0A] @ W else [])"
    proof (cases needs)
      case True
      have "K @ BH \<noteq> []" "[[], W] \<noteq> []" using False by simp_all
      from join_append [OF this, of "[0x0A]"] True show ?thesis by (simp add: BW_def)
    next
      case False
      then show ?thesis by (simp add: BW_def)
    qed
    have j: "assembled K H = strip (join [0x0A] M)"
      by (simp add: asm 1 [symmetric] 2 [symmetric] M_def)
    have ne: "M \<noteq> []" using False by (simp add: M_def)
    have hdM: "hd M = hd K" using False by (simp add: M_def)
    have lastM: "last M = (if needs then W else if H \<noteq> [] then H else last K)"
      using False by (simp add: M_def BH_def BW_def)
    have "clean (hd M)" using hdM False K by simp
    moreover have cl: "clean (last M)" using lastM False K cW cH by simp
    ultimately have "strip (join [0x0A] M) = join [0x0A] M" using ne by (intro strip_join_ends)
    moreover have "last M \<noteq> []" using cl by (simp add: clean_def)
    moreover have "\<forall>l\<in>set M. l = [] \<or> clean l" using K tail by (auto simp: M_def)
    moreover have "filter (\<lambda>l. l \<noteq> []) M =
      K @ (if H \<noteq> [] then [H] else []) @ (if needs then [W] else [])"
      using fK filt by (simp add: M_def)
    ultimately show ?thesis using j ne unfolding lM needs_def W_def by metis
  next
    case True
    have sp: "is_space 0x0A" by (simp add: is_space_def)
    show ?thesis
    proof (cases "H = []")
      case Hn: True
      then have n: "needs" using True by (simp add: needs_def)
      have "assembled K H = strip W" using True Hn n unfolding asm by (simp add: strip_lead sp)
      also have "\<dots> = W" using cW by (simp add: clean_def)
      finally have "assembled K H = join [0x0A] [W]" by simp
      moreover have "layout K H = [W]" unfolding lay using True Hn n by (simp add: BH_def BW_def)
      ultimately show ?thesis using True Hn n cW unfolding needs_def [symmetric] W_def [symmetric]
        by simp
    next
      case Hp: False
      show ?thesis
      proof (cases needs)
        case n: True
        have "assembled K H = strip (join [0x0A] [H, [], W])"
          using True Hp n unfolding asm by (simp add: strip_lead sp)
        also have "\<dots> = join [0x0A] [H, [], W]"
          using cH [OF Hp] cW by (intro strip_join_ends) simp_all
        finally have "assembled K H = join [0x0A] [H, [], W]" .
        moreover have "layout K H = [H, [], W]" unfolding lay using True Hp n by (simp add: BH_def BW_def)
        ultimately show ?thesis using True Hp n cW cH [OF Hp]
          unfolding needs_def [symmetric] W_def [symmetric]
          by (simp add: clean_def)
      next
        case n: False
        have "assembled K H = strip H"
          using True Hp n unfolding asm by (simp add: strip_lead sp)
        also have "\<dots> = H" using cH [OF Hp] by (simp add: clean_def)
        finally have "assembled K H = join [0x0A] [H]" by simp
        moreover have "layout K H = [H]" unfolding lay using True Hp n by (simp add: BH_def BW_def)
        ultimately show ?thesis using True Hp n cH [OF Hp]
          unfolding needs_def [symmetric] W_def [symmetric]
          by (simp add: clean_def)
      qed
    qed
  qed
qed

lemma assembled_lines:
  assumes K: "\<forall>l\<in>set K. clean l" and H: "tagline H"
  shows "\<exists>M. assembled K H = join [0x0A] M \<and> M \<noteq> [] \<and> last M \<noteq> [] \<and>
             (\<forall>l\<in>set M. l = [] \<or> clean l) \<and>
             filter (\<lambda>l. l \<noteq> []) M =
               K @ (if H \<noteq> [] then [H] else []) @
                 (if 0x3F \<notin> set (join [0x0A] K) \<and> 0x3F \<notin> set H then [lit ''What do you think?''] else [])"
  using assembled_layout [OF assms] by blast

lemma deduplicate_join_blanks:
  assumes "M \<noteq> []" and "last M \<noteq> []" and "\<forall>l\<in>set M. l = [] \<or> clean l"
    and "distinct (filter (\<lambda>l. l \<noteq> []) M)"
  shows "deduplicate_text (join [0x0A] M) = join [0x0A] (filter (\<lambda>l. l \<noteq> []) M)"
proof -
  define F where "F = filter (\<lambda>l. l \<noteq> []) M"
  have nb: "\<forall>l\<in>set M. \<forall>c\<in>set l. \<not> is_linebreak c" using assms(3) by (auto simp: clean_def)
  have st: "\<forall>l\<in>set M. strip l = l" using assms(3) by (auto simp: clean_def strip_Nil)
  have 1: "splitlines (join [0x0A] M) = M" using assms(1,2) nb by (rule splitlines_join)
  have 2: "dedup_loop M [] {} = F"
    using dedup_loop_blanks [of "{}" "[]" M] st assms(4) by (simp add: F_def)
  have "last M \<in> set F" using assms(1,2) by (simp add: F_def)
  then have ne: "F \<noteq> []" by auto
  have "\<forall>l\<in>set F. l \<noteq> [] \<and> strip l = l" using st by (simp add: F_def)
  with ne have "strip (join [0x0A] F) = join [0x0A] F" by (rule join_kept_stripped)
  then show ?thesis by (simp add: deduplicate_text_def 1 2 F_def)
qed

lemma hash_line: "clean l \<Longrightarrow> startswith (strip l) (lit ''#'') \<longleftrightarrow> hd l = 0x23"
  by (simp add: startswith_hash clean_def)

lemma normalize_assembled:
  assumes K: "\<forall>l\<in>set K. clean l \<and> hd l \<noteq> 0x23" and dK: "distinct K"
    and H: "tagline (hashtags_of u idea)"
  shows "normalize_post u (assembled K (hashtags_of u idea)) idea =
           assembled (K @ (if 0x3F \<notin> set (join [0x0A] K) \<and> 0x3F \<notin> set (hashtags_of u idea)
                           then [lit ''What do you think?''] else []))
                     (hashtags_of u idea)"
proof -
  define H where "H = hashtags_of u idea"
  define W where "W = lit ''What do you think?''"
  define needs where "needs \<longleftrightarrow> 0x3F \<notin> set (join [0x0A] K) \<and> 0x3F \<notin> set H"
  define TH where "TH = (if H \<noteq> [] then [H] else [])"
  define TW where "TW = (if needs then [W] else [])"
  define F where "F = K @ TH @ TW"
  have cW: "clean W" "hd W \<noteq> 0x23" "0x3F \<in> set W" unfolding W_def by (simp_all add: clean_prompt prompt_facts)
  have tH: "tagline H" using H by (simp add: H_def)
  have cH: "clean H \<and> hd H = 0x23" if "H \<noteq> []" using tH that by (simp add: tagline_def)
  have cK: "\<forall>l\<in>set K. clean l" using K by simp
  from assembled_lines [OF cK tH]
  obtain M where M: "assembled K H = join [0x0A] M" "M \<noteq> []" "last M \<noteq> []"
      "\<forall>l\<in>set M. l = [] \<or> clean l" "filter (\<lambda>l. l \<noteq> []) M = F"
    unfolding F_def TH_def TW_def needs_def W_def by blast
  have WK: "W \<notin> set K" if needs
  proof
    assume "W \<in> set K"
    with cW(3) have "0x3F \<in> set (join [0x0A] K)" by (simp add: in_join_LF) blast
    with that show False by (simp add: needs_def)
  qed
  have HK: "H \<notin> set K" if "H \<noteq> []" using cH [OF that] K by auto
  have HW: "H \<noteq> W" if "H \<noteq> []" using cH [OF that] cW(2) by auto
  have dF: "distinct F" using dK WK HK HW by (auto simp: F_def TH_def TW_def)
  have cF: "\<forall>l\<in>set F. clean l" using cK cH cW(1) by (auto simp: F_def TH_def TW_def)
  have "last M \<in> set F" using M(2,3) unfolding M(5) [symmetric] by simp
  then have neF: "F \<noteq> []" by auto
  then have "hd F \<in> set F" "last F \<in> set F" by simp_all
  then have hl: "hd F \<noteq> []" "last F \<noteq> []" using cF by (auto simp: clean_def)
  have D: "deduplicate_text (assembled K H) = join [0x0A] F"
    using deduplicate_join_blanks [OF M(2,3,4)] dF by (simp add: M(1) M(5))
  have ne: "join [0x0A] F \<noteq> []" using neF hl(1) by (rule join_nonempty)
  have "\<forall>l\<in>set F. \<forall>c\<in>set l. \<not> is_linebreak c" using cF by (simp add: clean_def)
  with neF hl(2) have sl: "splitlines (join [0x0A] F) = F" by (rule splitlines_join)
  have fl: "filter (\<lambda>line. \<not> startswith (strip line) (lit ''#'')) F = K @ TW"
  proof -
    have "filter (\<lambda>line. \<not> startswith (strip line) (lit ''#'')) F = filter (\<lambda>l. hd l \<noteq> 0x23) F"
      using cF by (intro filter_cong) (simp_all add: hash_line)
    also have "\<dots> = K @ TW"
      using K cH cW(2) by (auto simp: F_def TH_def TW_def filter_id_conv)
    finally show ?thesis .
  qed
  have "normalize_post u (assembled K H) idea = assembled (K @ TW) H"
    using apply_post_processing_assembled [OF ne, of u idea]
    by (simp add: normalize_post_def D [unfolded H_def] sl fl H_def)
  then show ?thesis by (simp add: H_def TW_def needs_def W_def)
qed

lemma normalize_shape:
  "normalize_post u x idea = [] \<or>
   (\<exists>K. (\<forall>l\<in>set K. clean l \<and> hd l \<noteq> 0x23) \<and> distinct K \<and>
        K = filter (\<lambda>line. \<not> startswith (strip line) (lit ''#'')) (splitlines (deduplicate_text x)) \<and>
        normalize_post u x idea = assembled K (hashtags_of u idea))"
proof -
  define R where "R = dedup_loop (splitlines x) [] {}"
  show ?thesis
  proof (cases "R = []")
    case True
    then have "deduplicate_text x = []" by (simp add: deduplicate_text_def R_def strip_Nil)
    then show ?thesis by (simp add: normalize_post_def apply_post_processing_def)
  next
    case False
    have k: "\<forall>l\<in>set R. l \<noteq> [] \<and> strip l = l \<and> (\<forall>c\<in>set l. \<not> is_linebreak c)"
      using kept_lines unfolding R_def by blast
    then have cR: "\<forall>l\<in>set R. clean l" by (simp add: clean_def)
    have d: "distinct R" unfolding R_def by (rule dedup_loop_distinct) simp_all
    have k': "\<forall>l\<in>set R. l \<noteq> [] \<and> strip l = l" using k by blast
    have D: "deduplicate_text x = join [0x0A] R"
      using join_kept_stripped [OF False k'] by (simp add: deduplicate_text_def R_def)
    have "last R \<in> set R" "hd R \<in> set R" using False by simp_all
    then have hl: "last R \<noteq> []" "hd R \<noteq> []" using k by auto
    have "\<forall>l\<in>set R. \<forall>c\<in>set l. \<not> is_linebreak c" using k by blast
    with False hl(1) have sl: "splitlines (join [0x0A] R) = R" by (rule splitlines_join)
    have ne: "join [0x0A] R \<noteq> []" using False hl(2) by (rule join_nonempty)
    define K where "K = filter (\<lambda>line. \<not> startswith (strip line) (lit ''#'')) R"
    have "\<forall>l\<in>set K. clean l \<and> hd l \<noteq> 0x23" using cR by (auto simp: K_def hash_line)
    moreover have "distinct K" using d by (simp add: K_def)
    moreover have "normalize_post u x idea = assembled K (hashtags_of u idea)"
      using apply_post_processing_assembled [OF ne, of u idea] by (simp add: normalize_post_def D sl K_def)
    moreover have "K = filter (\<lambda>line. \<not> startswith (strip line) (lit ''#'')) (splitlines (deduplicate_text x))"
      by (simp add: K_def D sl)
    ultimately show ?thesis by blast
  qed
qed

lemma normalize_Nil: "normalize_post u [] idea = []"
  by (simp add: normalize_post_def deduplicate_text_def apply_post_processing_def strip_Nil)

lemma is_space_range: "is_space c \<Longrightarrow> c \<le> 32 \<or> 133 \<le> c"
  unfolding is_space_def by linarith

lemma ascii_capitalize_no_space:
  "\<forall>w. (\<forall>c\<in>set w. \<not> is_space c) \<longrightarrow> (\<forall>c\<in>set (capitalize ascii w). \<not> is_space c)"
proof (intro allI impI)
  fix w assume w: "\<forall>c\<in>set w. \<not> is_space c"
  have up: "\<not> is_space (ascii_upper_cp c)" if "\<not> is_space c" for c
  proof (cases "97 \<le> c \<and> c \<le> 122")
    case True
    then have "\<not> (c - 32 \<le> 32 \<or> 133 \<le> c - 32)" by linarith
    with True show ?thesis using is_space_range [of "c - 32"] by (auto simp: ascii_upper_cp_def)
  next
    case False
    with that show ?thesis by (auto simp: ascii_upper_cp_def)
  qed
  have lo: "\<not> is_space (ascii_lower_cp c)" if "\<not> is_space c" for c
  proof (cases "65 \<le> c \<and> c \<le> 90")
    case True
    then have "\<not> (c + 32 \<le> 32 \<or> 133 \<le> c + 32)" by linarith
    with True show ?thesis using is_space_range [of "c + 32"] by (auto simp: ascii_lower_cp_def)
  next
    case False
    with that show ?thesis by (auto simp: ascii_lower_cp_def)
  qed
  show "\<forall>c\<in>set (capitalize ascii w). \<not> is_space c"
    using w up lo by (cases w) (auto simp: ascii_def)
qed

lemma prompt_appended_differs:
  assumes K: "\<forall>l\<in>set K. clean l" and H: "tagline H"
    and needs: "0x3F \<notin> set (join [0x0A] K) \<and> 0x3F \<notin> set H"
    and some: "K \<noteq> [] \<or> H \<noteq> []"
  shows "assembled (K @ [lit ''What do you think?'']) H \<noteq> assembled K H"
proof
  define W where "W = lit ''What do you think?''"
  define BH where "BH = (if H \<noteq> [] then [[], H] else [])"
  assume eq: "assembled (K @ [lit ''What do you think?'']) H = assembled K H"
  have cW: "clean W" "hd W \<noteq> 0x23" "0x3F \<in> set W" unfolding W_def by (simp_all add: clean_prompt prompt_facts)
  have K2: "\<forall>l\<in>set (K @ [W]). clean l" using K cW(1) by simp
  have q2: "0x3F \<in> set (join [0x0A] (K @ [W]))" using cW(3) by (simp add: in_join_LF)
  note a1 = assembled_layout [OF K H]
  note a2 = assembled_layout [OF K2 H]
  have nb1: "\<forall>l\<in>set (layout K H). \<forall>c\<in>set l. \<not> is_linebreak c"
    using a1 by (auto simp: clean_def)
  have nb2: "\<forall>l\<in>set (layout (K @ [W]) H). \<forall>c\<in>set l. \<not> is_linebreak c"
    using a2 by (auto simp: clean_def)
  have s1: "splitlines (join [0x0A] (layout K H)) = layout K H"
    using a1 nb1 by (intro splitlines_join) simp_all
  have s2: "splitlines (join [0x0A] (layout (K @ [W]) H)) = layout (K @ [W]) H"
    using a2 nb2 by (intro splitlines_join) simp_all
  have "join [0x0A] (layout (K @ [W]) H) = join [0x0A] (layout K H)"
    using eq a1 a2 by (simp add: W_def)
  then have same: "layout (K @ [W]) H = layout K H" using s1 s2 by metis
  have l2: "layout (K @ [W]) H = K @ [W] @ BH"
    using q2 by (simp add: layout_def Let_def BH_def)
  have l1: "layout K H = (if K = [] then drop 1 (BH @ [[], W]) else K @ BH @ [[], W])"
    using needs by (simp add: layout_def Let_def BH_def W_def)
  from same have e: "K @ [W] @ BH = (if K = [] then drop 1 (BH @ [[], W]) else K @ BH @ [[], W])"
    unfolding l1 l2 .
  show False
  proof (cases "K = []")
    case False
    with e have "W # BH = BH @ [[], W]" by simp
    then show False by (cases "H = []") (simp_all add: BH_def)
  next
    case True
    with some have Hp: "H \<noteq> []" by simp
    have e': "W # BH = drop 1 (BH @ [[], W])" using True e by simp
    have "hd (W # BH) = hd (drop 1 (BH @ [[], W]))" by (simp only: e')
    then have "W = H" using Hp by (simp add: BH_def)
    moreover have "hd H = 0x23" using H Hp by (simp add: tagline_def)
    ultimately show False using cW(2) by simp
  qed
qed

lemma prompt_alone:
  "assembled [lit ''What do you think?''] [] = assembled [] []"
proof -
  define W where "W = lit ''What do you think?''"
  have cW: "clean W" "0x3F \<in> set W" unfolding W_def by (simp_all add: clean_prompt prompt_facts)
  have t: "tagline []" by (simp add: tagline_def)
  have K1: "\<forall>l\<in>set [W]. clean l" using cW by simp
  have K0: "\<forall>l\<in>set ([] :: str list). clean l" by simp
  have "layout [W] [] = [W]" using cW(2) by (simp add: layout_def)
  moreover have "layout [] [] = [W]" by (simp add: layout_def W_def)
  ultimately show ?thesis
    using assembled_layout [OF K1 t] assembled_layout [OF K0 t] by (simp add: W_def)
qed

lemma hashtags_startups:
  "hashtags_of ascii (lit ''Why startups fail?'') = lit ''#Startups #Fail?''"
  by (simp add: hashtags_of_def lit_def is_space_def ascii_def ascii_upper_cp_def ascii_lower_cp_def)

lemma hashtags_machine:
  "hashtags_of ascii (lit ''machine learning'') = lit ''#Machine #Learning''"
  by (simp add: hashtags_of_def lit_def is_space_def ascii_def ascii_upper_cp_def ascii_lower_cp_def)

lemma deduplicate_hello: "deduplicate_text (lit ''Hello'') = lit ''Hello''"
  by (simp add: deduplicate_text_def strip_def lstrip_def rstrip_def lit_def is_space_def is_linebreak_def)

lemma kept_hello:
  "filter (\<lambda>line. \<not> startswith (strip line) (lit ''#'')) (splitlines (lit ''Hello'')) = [lit ''Hello'']"
  by (simp add: strip_def lstrip_def rstrip_def lit_def is_space_def is_linebreak_def startswith_def)

text \<open>
  C5, amended. Where capitalizing a word without whitespace yields no whitespace (as
  \<open>str.capitalize\<close> does), for every text and idea: normalizing a third time changes
  nothing; normalizing a second time changes nothing exactly when the first pass appends
  no closing question (the deduplicated text is empty, or the hashtag line of the idea or
  a kept line that is not a hashtag line has a question mark) or the closing question is
  all there is (no line is kept and the idea has no hashtag line); and deduplication alone
  is idempotent.
\<close>

theorem normalize_stable:
  assumes cap: "\<forall>w. (\<forall>c\<in>set w. \<not> is_space c) \<longrightarrow> (\<forall>c\<in>set (capitalize u w). \<not> is_space c)"
  shows "normalize_post u (normalize_post u (normalize_post u x idea) idea) idea =
           normalize_post u (normalize_post u x idea) idea \<and>
         (normalize_post u (normalize_post u x idea) idea = normalize_post u x idea \<longleftrightarrow>
            deduplicate_text x = [] \<or>
            0x3F \<in> set (hashtags_of u idea) \<or>
            (\<exists>l\<in>set (filter (\<lambda>line. \<not> startswith (strip line) (lit ''#'')) (splitlines (deduplicate_text x))).
               0x3F \<in> set l) \<or>
            (filter (\<lambda>line. \<not> startswith (strip line) (lit ''#'')) (splitlines (deduplicate_text x)) = [] \<and>
             hashtags_of u idea = [])) \<and>
         deduplicate_text (deduplicate_text x) = deduplicate_text x"
proof -
  define H where "H = hashtags_of u idea"
  define W where "W = lit ''What do you think?''"
  have tH: "tagline (hashtags_of u idea)" using cap by (rule hashtags_tagline)
  have cW: "clean W" "hd W \<noteq> 0x23" "0x3F \<in> set W" unfolding W_def by (simp_all add: clean_prompt prompt_facts)
  have idem: "deduplicate_text (deduplicate_text x) = deduplicate_text x"
  proof -
    define R where "R = dedup_loop (splitlines x) [] {}"
    show ?thesis
    proof (cases "R = []")
      case True
      then have "deduplicate_text x = []" by (simp add: deduplicate_text_def R_def strip_Nil)
      moreover have "deduplicate_text [] = []" by (simp add: deduplicate_text_def strip_Nil)
      ultimately show ?thesis by simp
    next
      case False
      have k: "\<forall>l\<in>set R. l \<noteq> [] \<and> strip l = l \<and> (\<forall>c\<in>set l. \<not> is_linebreak c)"
        using kept_lines unfolding R_def by blast
      have d: "distinct R" unfolding R_def by (rule dedup_loop_distinct) simp_all
      have "deduplicate_text x = join [0x0A] R"
        using join_kept_stripped [of R] False k by (simp add: deduplicate_text_def R_def)
      with deduplicate_join [OF False d k] show ?thesis by simp
    qed
  qed
  show ?thesis
  proof (cases "deduplicate_text x = []")
    case True
    then have "normalize_post u x idea = []"
      by (simp add: normalize_post_def apply_post_processing_def)
    with True idem show ?thesis by (simp add: normalize_Nil)
  next
    case False
    then have "0x3F \<in> set (normalize_post u x idea)"
      unfolding normalize_post_def by (rule question_mark_kept)
    then have "normalize_post u x idea \<noteq> []" by auto
    with normalize_shape [of u x idea]
    obtain K where K: "\<forall>l\<in>set K. clean l \<and> hd l \<noteq> 0x23" "distinct K"
        "K = filter (\<lambda>line. \<not> startswith (strip line) (lit ''#'')) (splitlines (deduplicate_text x))"
        "normalize_post u x idea = assembled K H"
      unfolding H_def by blast
    define needs where "needs \<longleftrightarrow> 0x3F \<notin> set (join [0x0A] K) \<and> 0x3F \<notin> set H"
    define K2 where "K2 = K @ (if needs then [W] else [])"
    have cK: "\<forall>l\<in>set K. clean l" using K(1) by simp
    have n2: "normalize_post u (normalize_post u x idea) idea = assembled K2 H"
      using normalize_assembled [OF K(1,2) tH] by (simp add: K(4) H_def K2_def needs_def W_def)
    have WK: "W \<notin> set K" if needs
    proof
      assume "W \<in> set K"
      with cW(3) have "0x3F \<in> set (join [0x0A] K)" by (simp add: in_join_LF) blast
      with that show False by (simp add: needs_def)
    qed
    have c2: "\<forall>l\<in>set K2. clean l \<and> hd l \<noteq> 0x23" using K(1) cW by (auto simp: K2_def)
    have d2: "distinct K2" using K(2) WK by (auto simp: K2_def)
    have no2: "\<not> (0x3F \<notin> set (join [0x0A] K2) \<and> 0x3F \<notin> set H)"
    proof (cases needs)
      case True
      then have "W \<in> set K2" by (simp add: K2_def)
      with cW(3) have "0x3F \<in> set (join [0x0A] K2)" by (simp add: in_join_LF) blast
      then show ?thesis by simp
    next
      case False
      then show ?thesis by (auto simp: K2_def needs_def)
    qed
    have n3: "normalize_post u (assembled K2 H) idea = assembled K2 H"
      using normalize_assembled [OF c2 d2 tH] no2 by (auto simp: H_def W_def)
    have twice: "assembled K2 H = assembled K H \<longleftrightarrow> \<not> needs \<or> (K = [] \<and> H = [])"
    proof (cases needs)
      case False
      then show ?thesis by (simp add: K2_def)
    next
      case True
      show ?thesis
      proof (cases "K = [] \<and> H = []")
        case True
        with \<open>needs\<close> show ?thesis using prompt_alone by (simp add: K2_def W_def)
      next
        case False
        then have "K \<noteq> [] \<or> H \<noteq> []" by blast
        with prompt_appended_differs [OF cK tH [folded H_def]] True
        have "assembled (K @ [W]) H \<noteq> assembled K H" by (simp add: needs_def W_def)
        with True False show ?thesis by (simp add: K2_def)
      qed
    qed
    have rhs: "(\<not> needs \<or> (K = [] \<and> H = [])) \<longleftrightarrow>
        (0x3F \<in> set H \<or> (\<exists>l\<in>set K. 0x3F \<in> set l) \<or> (K = [] \<and> H = []))"
      by (auto simp: needs_def in_join_LF)
    have "normalize_post u (normalize_post u x idea) idea = normalize_post u x idea \<longleftrightarrow>
            assembled K2 H = assembled K H"
      by (subst n2, subst K(4)) (rule refl)
    then have "normalize_post u (normalize_post u x idea) idea = normalize_post u x idea \<longleftrightarrow>
            0x3F \<in> set H \<or> (\<exists>l\<in>set K. 0x3F \<in> set l) \<or> (K = [] \<and> H = [])"
      using twice rhs by blast
    then have two: "normalize_post u (normalize_post u x idea) idea = normalize_post u x idea \<longleftrightarrow>
            deduplicate_text x = [] \<or>
            0x3F \<in> set (hashtags_of u idea) \<or>
            (\<exists>l\<in>set (filter (\<lambda>line. \<not> startswith (strip line) (lit ''#'')) (splitlines (deduplicate_text x))).
               0x3F \<in> set l) \<or>
            (filter (\<lambda>line. \<not> startswith (strip line) (lit ''#'')) (splitlines (deduplicate_text x)) = [] \<and>
             hashtags_of u idea = [])"
      using False unfolding K(3) [symmetric] H_def by simp
    have three: "normalize_post u (normalize_post u (normalize_post u x idea) idea) idea =
           normalize_post u (normalize_post u x idea) idea"
      using n2 n3 by simp
    from two three idem show ?thesis by blast
  qed
qed

theorem normalize_stable_witness:
  "normalize_post ascii (normalize_post ascii (normalize_post ascii (lit ''Hello'') (lit ''machine learning''))
       (lit ''machine learning'')) (lit ''machine learning'') =
     normalize_post ascii (normalize_post ascii (lit ''Hello'') (lit ''machine learning'')) (lit ''machine learning'') \<and>
   normalize_post ascii (normalize_post ascii (lit ''Hello'') (lit ''machine learning'')) (lit ''machine learning'') \<noteq>
     normalize_post ascii (lit ''Hello'') (lit ''machine learning'') \<and>
   normalize_post ascii (normalize_post ascii (lit ''Hi'') (lit ''Why startups fail?'')) (lit ''Why startups fail?'') =
     normalize_post ascii (lit ''Hi'') (lit ''Why startups fail?'')"
proof -
  have q: "0x3F \<in> set (hashtags_of ascii (lit ''Why startups fail?''))"
    unfolding hashtags_startups by (simp add: lit_def)
  have n: "\<not> (deduplicate_text (lit ''Hello'') = [] \<or>
            0x3F \<in> set (hashtags_of ascii (lit ''machine learning'')) \<or>
            (\<exists>l\<in>set (filter (\<lambda>line. \<not> startswith (strip line) (lit ''#'')) (splitlines (deduplicate_text (lit ''Hello'')))).
               0x3F \<in> set l) \<or>
            (filter (\<lambda>line. \<not> startswith (strip line) (lit ''#'')) (splitlines (deduplicate_text (lit ''Hello''))) = [] \<and>
             hashtags_of ascii (lit ''machine learning'') = []))"
    unfolding deduplicate_hello kept_hello hashtags_machine by (simp add: lit_def)
  from normalize_stable [OF ascii_capitalize_no_space, of "lit ''Hello''" "lit ''machine learning''"]
       normalize_stable [OF ascii_capitalize_no_space, of "lit ''Hi''" "lit ''Why startups fail?''"] q n
  show ?thesis by blast
qed

end
